theory Spec2Isabelle
  imports Complex_Main "HOL-Library.AList"
begin

section \<open>Errors and trajectory results\<close>

text \<open>
  The JavaScript sources throw plain \<open>Error\<close> objects that differ in their message only;
  each message is one constructor here.  \<open>TypeError\<close> is the runtime's own exception for a
  property read on \<open>undefined\<close>.
  \<^item> \<open>InvalidInputError\<close>: "Input must be a positive integer"
  \<^item> \<open>OverflowError\<close>: "Integer overflow detected"
  \<^item> \<open>StepLimitError\<close>: "Sequence exceeded safe integer limit"
\<close>

datatype error = InvalidInputError | OverflowError | StepLimitError | TypeError

text \<open>The object \<open>{ steps, sequence, cacheHit }\<close> returned by \<open>calculateSequence\<close>.\<close>

record CollatzResult =
  steps :: nat
  sequence :: "int list"
  cacheHit :: bool

section \<open>Cache.js: class LRUCache\<close>

text \<open>
  A JavaScript \<open>Map\<close> iterates in insertion order, \<open>Map.set\<close> on a present key keeps the
  key's position and \<open>Map.delete\<close> removes it; this is an association list with
  \<open>AList.update\<close> and \<open>AList.delete\<close>.  Usage counters are JavaScript numbers that only
  ever count up from 1, modelled as \<open>nat\<close>.  A capacity below zero behaves like zero (the
  size test always succeeds), so \<open>maxSize\<close> is a \<open>nat\<close>.
\<close>

record ('k, 'v) LRUCache =
  maxSize :: nat
  cache :: "('k \<times> 'v) list"
  usage :: "('k \<times> nat) list"

definition new_LRUCache :: "nat \<Rightarrow> ('k, 'v) LRUCache" where
  "new_LRUCache m = \<lparr>maxSize = m, cache = [], usage = []\<rparr>"

text \<open>\<open>this.usage.set(key, (this.usage.get(key) || 0) + 1)\<close>\<close>

definition updateUsage :: "('k, 'v) LRUCache \<Rightarrow> 'k \<Rightarrow> ('k, 'v) LRUCache" where
  "updateUsage c key =
     c\<lparr>usage := AList.update key
                   ((case map_of (usage c) key of None \<Rightarrow> 0 | Some u \<Rightarrow> u) + 1) (usage c)\<rparr>"

text \<open>\<open>get\<close> returns \<open>undefined\<close> (here \<open>None\<close>) on a miss and leaves the counters alone.\<close>

definition get :: "('k, 'v) LRUCache \<Rightarrow> 'k \<Rightarrow> 'v option \<times> ('k, 'v) LRUCache" where
  "get c key =
     (if key \<notin> fst ` set (cache c) then (None, c)
      else (map_of (cache c) key, updateUsage c key))"

text \<open>
  \<open>Array.from(this.usage.entries()).sort((a, b) => a[1] - b[1])[0][0]\<close>: the sort is stable
  and ascending in the counter, as \<open>sort_key snd\<close> is, so the victim is the first key in
  insertion order among those with the least counter.  On an empty \<open>usage\<close> map the
  expression reads \<open>[0]\<close> of \<open>undefined\<close>, which throws.
\<close>

definition evictLeastUsed :: "('k, 'v) LRUCache \<Rightarrow> error + ('k, 'v) LRUCache" where
  "evictLeastUsed c =
     (case sort_key snd (usage c) of
        [] \<Rightarrow> Inl TypeError
      | (leastUsedKey, _) # _ \<Rightarrow>
          Inr (c\<lparr>cache := AList.delete leastUsedKey (cache c),
                 usage := AList.delete leastUsedKey (usage c)\<rparr>))"

definition set_lru :: "('k, 'v) LRUCache \<Rightarrow> 'k \<Rightarrow> 'v \<Rightarrow> error + ('k, 'v) LRUCache" where
  "set_lru c key val =
     (case (if length (cache c) \<ge> maxSize c then evictLeastUsed c else Inr c) of
        Inl e \<Rightarrow> Inl e
      | Inr c' \<Rightarrow> Inr (updateUsage (c'\<lparr>cache := AList.update key val (cache c')\<rparr>) key))"

definition clear :: "('k, 'v) LRUCache \<Rightarrow> ('k, 'v) LRUCache" where
  "clear c = c\<lparr>cache := [], usage := []\<rparr>"

definition size_lru :: "('k, 'v) LRUCache \<Rightarrow> nat" where
  "size_lru c = length (cache c)"

text \<open>A client's calls on one cache, run in order; an exception ends the run.\<close>

datatype ('k, 'v) cache_op = Get 'k | Set 'k 'v | Clear

fun apply_op :: "('k, 'v) LRUCache \<Rightarrow> ('k, 'v) cache_op \<Rightarrow> error + ('k, 'v) LRUCache" where
  "apply_op c (Get k) = Inr (snd (get c k))"
| "apply_op c (Set k v) = set_lru c k v"
| "apply_op c Clear = Inr (clear c)"

fun run_ops :: "('k, 'v) LRUCache \<Rightarrow> ('k, 'v) cache_op list \<Rightarrow> error + ('k, 'v) LRUCache" where
  "run_ops c [] = Inr c"
| "run_ops c (x # xs) = (case apply_op c x of Inl e \<Rightarrow> Inl e | Inr c' \<Rightarrow> run_ops c' xs)"

text \<open>The two maps of a cache always hold the same keys.\<close>

definition keys_agree :: "('k, 'v) LRUCache \<Rightarrow> bool" where
  "keys_agree c \<longleftrightarrow> fst ` set (cache c) = fst ` set (usage c)"

section \<open>Integer-valued doubles\<close>

text \<open>
  JavaScript numbers are IEEE doubles.  Every integer of magnitude up to \<open>2^53\<close> is a
  double; beyond that the doubles are the multiples of \<open>ulp\<close>, the spacing of the binade,
  and a sum or difference of integer-valued doubles is the double nearest to the exact
  result, ties going to the even significand.  \<open>roundDouble\<close> is that rounding.  The
  exponent is not bounded here: where the source would reach \<open>Infinity\<close> the model has a
  finite integer above every double, which compares with any finite double as \<open>Infinity\<close>
  does.
\<close>

function ulp :: "int \<Rightarrow> int" where
  "ulp m = (if m < 9007199254740992 then 1 else 2 * ulp (m div 2))"
  by pat_completeness auto
termination
  by (relation "measure nat") auto

declare ulp.simps [simp del]

definition roundDouble :: "int \<Rightarrow> int" where
  "roundDouble x =
     (let m = \<bar>x\<bar>; u = ulp m; q = m div u; r = m mod u;
          q' = (if 2 * r > u \<or> (2 * r = u \<and> odd q) then q + 1 else q)
      in sgn x * (q' * u))"

section \<open>MemoryManager.js: class MemoryManager\<close>

text \<open>
  \<open>checkMemory\<close> reads the clock and the heap size of the process.  Both belong to the
  environment, so every call consumes one reading \<open>(Date.now(), heapUsed)\<close> from a list of
  readings to come; the two reads of the clock within one call see the same value.  When the
  list is used up no time passes any more, and the rate limit answers \<open>true\<close>.
\<close>

record MemoryManager =
  warningThreshold :: int
  lastCheck :: int
  checkInterval :: int

type_synonym probe = "int \<times> int"

definition new_MemoryManager :: "int \<Rightarrow> int \<Rightarrow> MemoryManager" where
  "new_MemoryManager warningThresholdMB now =
     \<lparr>warningThreshold = warningThresholdMB * 1024 * 1024, lastCheck = now,
      checkInterval = 1000\<rparr>"

definition checkMemory_with :: "MemoryManager \<Rightarrow> probe \<Rightarrow> bool \<times> MemoryManager" where
  "checkMemory_with mm p =
     (case p of (now, used) \<Rightarrow>
        if now - lastCheck mm < checkInterval mm then (True, mm)
        else if used > warningThreshold mm then (False, mm\<lparr>lastCheck := now\<rparr>)
        else (True, mm\<lparr>lastCheck := now\<rparr>))"

fun checkMemory :: "MemoryManager \<Rightarrow> probe list \<Rightarrow> bool \<times> MemoryManager \<times> probe list" where
  "checkMemory mm [] = (True, mm, [])"
| "checkMemory mm (p # rest) = (case checkMemory_with mm p of (ok, mm') \<Rightarrow> (ok, mm', rest))"

text \<open>The monitor reports OK throughout: every call still to come answers \<open>true\<close>.\<close>

fun monitor_ok :: "MemoryManager \<Rightarrow> probe list \<Rightarrow> bool" where
  "monitor_ok mm [] = True"
| "monitor_ok mm (p # rest) =
     (case checkMemory_with mm p of (ok, mm') \<Rightarrow> ok \<and> monitor_ok mm' rest)"

section \<open>CollatzCalculator.js: class CollatzCalculator\<close>

text \<open>
  The calculator owns the cache (\<open>this.cache\<close>, here \<open>calc_cache\<close>, since \<open>cache\<close> names the
  \<open>Map\<close> inside \<open>LRUCache\<close>) and the memory manager; \<open>env\<close> holds the readings that the
  environment will hand to \<open>checkMemory\<close>.  The options are read with \<open>config.x || default\<close>,
  so an absent option and 0 both give the default.
\<close>

record CollatzCalculator =
  calc_cache :: "(int, CollatzResult) LRUCache"
  memoryManager :: MemoryManager
  batchSize :: nat
  memoryCheckFrequency :: nat
  env :: "probe list"

record Config =
  cacheSize :: nat
  memoryThreshold :: nat
  cfg_batchSize :: nat
  cfg_memoryCheckFrequency :: nat

definition or_default :: "nat \<Rightarrow> nat \<Rightarrow> nat" where
  "or_default x d = (if x = 0 then d else x)"

definition new_CollatzCalculator :: "Config \<Rightarrow> int \<Rightarrow> probe list \<Rightarrow> CollatzCalculator" where
  "new_CollatzCalculator config now readings =
     \<lparr>calc_cache = new_LRUCache (or_default (cacheSize config) 40000),
      memoryManager = new_MemoryManager (int (or_default (memoryThreshold config) 350)) now,
      batchSize = or_default (cfg_batchSize config) 20000,
      memoryCheckFrequency = or_default (cfg_memoryCheckFrequency config) 1000,
      env = readings\<rparr>"

definition MAX_SAFE_INTEGER :: int where
  "MAX_SAFE_INTEGER = 9007199254740991"

definition isSafeInteger :: "int \<Rightarrow> bool" where
  "isSafeInteger x \<longleftrightarrow> - MAX_SAFE_INTEGER \<le> x \<and> x \<le> MAX_SAFE_INTEGER"

text \<open>
  The product of two integer-valued doubles is exact when it is a safe integer, and rounds
  to a double of magnitude at least \<open>2^53\<close> otherwise; so the test on the rounded product is
  the test on the exact one.
\<close>

definition safeMultiply :: "int \<Rightarrow> int \<Rightarrow> error + int" where
  "safeMultiply a b =
     (let result = a * b in if \<not> isSafeInteger result then Inl OverflowError else Inr result)"

text \<open>
  \<open>k % this.memoryCheckFrequency === 0 && !this.memoryManager.checkMemory()\<close>, with the state
  after it.  The monitor is called only when the remainder is zero; a remainder by zero is
  \<open>NaN\<close>, which is not \<open>0\<close>.
\<close>

definition memoryPressure :: "int \<Rightarrow> CollatzCalculator \<Rightarrow> bool \<times> CollatzCalculator" where
  "memoryPressure k c =
     (if memoryCheckFrequency c \<noteq> 0 \<and> k mod int (memoryCheckFrequency c) = 0
      then (case checkMemory (memoryManager c) (env c) of
              (ok, mm, rest) \<Rightarrow> (\<not> ok, c\<lparr>memoryManager := mm, env := rest\<rparr>))
      else (False, c))"

text \<open>
  \<open>if (steps % this.memoryCheckFrequency === 0 && !this.memoryManager.checkMemory())
  this.cache.clear()\<close>
\<close>

definition clearOnPressure :: "nat \<Rightarrow> CollatzCalculator \<Rightarrow> CollatzCalculator" where
  "clearOnPressure steps0 c =
     (case memoryPressure (int steps0) c of
        (pressure, c1) \<Rightarrow> if pressure then c1\<lparr>calc_cache := clear (calc_cache c1)\<rparr> else c1)"

text \<open>\<open>this.cache.get(key)\<close> under \<open>if (useCache)\<close>; without the cache nothing is read.\<close>

definition lookup ::
  "bool \<Rightarrow> CollatzCalculator \<Rightarrow> int \<Rightarrow> CollatzResult option \<times> CollatzCalculator" where
  "lookup useCache c key =
     (if useCache then (case get (calc_cache c) key of (found, lc) \<Rightarrow> (found, c\<lparr>calc_cache := lc\<rparr>))
      else (None, c))"

text \<open>\<open>currentNum % 2 === 0 ? currentNum / 2 : this.safeMultiply(currentNum, 3) + 1\<close>\<close>

definition nextNum :: "int \<Rightarrow> error + int" where
  "nextNum currentNum =
     (if currentNum mod 2 = 0 then Inr (currentNum div 2)
      else (case safeMultiply currentNum 3 of Inl e \<Rightarrow> Inl e | Inr product \<Rightarrow> Inr (product + 1)))"

text \<open>
  One pass through the body of the \<open>while\<close> loop of \<open>calculateSequence\<close>, from the values of
  \<open>currentNum\<close>, \<open>steps\<close> and \<open>sequence\<close> at its start: \<open>Inl\<close> when the pass leaves the function
  (a \<open>return\<close> or a \<open>throw\<close>), \<open>Inr\<close> with the new values when the loop goes on.
\<close>

definition loop_body ::
  "bool \<Rightarrow> int \<Rightarrow> nat \<Rightarrow> int list \<Rightarrow> CollatzCalculator \<Rightarrow>
   ((error + CollatzResult) \<times> CollatzCalculator) + (int \<times> nat \<times> int list \<times> CollatzCalculator)"
where
  "loop_body useCache currentNum steps0 seq c =
     (case lookup useCache (clearOnPressure steps0 c) currentNum of
        (Some intermediateResult, c') \<Rightarrow>
          Inl (Inr \<lparr>steps = steps0 + steps intermediateResult,
                    sequence = seq @ tl (sequence intermediateResult),
                    cacheHit = True\<rparr>, c')
      | (None, c') \<Rightarrow>
          (case nextNum currentNum of
             Inl e \<Rightarrow> Inl (Inl e, c')
           | Inr next \<Rightarrow>
               if int (steps0 + 1) > MAX_SAFE_INTEGER then Inl (Inl StepLimitError, c')
               else Inr (next, steps0 + 1, seq @ [next], c')))"

text \<open>
  After the loop: build the result and, with the cache in use, store it under \<open>n\<close>.  The
  stored object shares its \<open>sequence\<close> array with the object returned, but no code writes to
  either after the return, so both are values here.
\<close>

definition finish ::
  "bool \<Rightarrow> int \<Rightarrow> nat \<Rightarrow> int list \<Rightarrow> CollatzCalculator \<Rightarrow>
   (error + CollatzResult) \<times> CollatzCalculator"
where
  "finish useCache n steps0 seq c =
     (let result = \<lparr>steps = steps0, sequence = seq, cacheHit = False\<rparr> in
      if useCache then
        (case set_lru (calc_cache c) n result of
           Inl e \<Rightarrow> (Inl e, c)
         | Inr lc \<Rightarrow> (Inr result, c\<lparr>calc_cache := lc\<rparr>))
      else (Inr result, c))"

text \<open>
  The loop may run forever (that it does not is the Collatz conjecture), so it is given
  fuel: one unit per pass through the body, \<open>None\<close> when the fuel is used up.
\<close>

fun calculateSequence_loop ::
  "nat \<Rightarrow> bool \<Rightarrow> int \<Rightarrow> int \<Rightarrow> nat \<Rightarrow> int list \<Rightarrow> CollatzCalculator \<Rightarrow>
   ((error + CollatzResult) \<times> CollatzCalculator) option"
where
  "calculateSequence_loop 0 useCache n currentNum steps0 seq c =
     (if currentNum \<noteq> 1 then None else Some (finish useCache n steps0 seq c))"
| "calculateSequence_loop (Suc fuel) useCache n currentNum steps0 seq c =
     (if currentNum \<noteq> 1 then
        (case loop_body useCache currentNum steps0 seq c of
           Inl exit \<Rightarrow> Some exit
         | Inr (currentNum', steps', seq', c') \<Rightarrow>
             calculateSequence_loop fuel useCache n currentNum' steps' seq' c')
      else Some (finish useCache n steps0 seq c))"

text \<open>
  \<open>calculateSequence(n, useCache)\<close>.  The argument is a JavaScript number for which
  \<open>Number.isInteger\<close> holds; other arguments are outside the type \<open>int\<close>.
\<close>

definition calculateSequence ::
  "nat \<Rightarrow> int \<Rightarrow> bool \<Rightarrow> CollatzCalculator \<Rightarrow>
   ((error + CollatzResult) \<times> CollatzCalculator) option"
where
  "calculateSequence fuel n useCache c =
     (if n \<le> 0 then Some (Inl InvalidInputError, c)
      else case lookup useCache c n of
        (Some cached, c') \<Rightarrow> Some (Inr (cached\<lparr>cacheHit := True\<rparr>), c')
      | (None, c') \<Rightarrow> calculateSequence_loop fuel useCache n n 0 [n] c')"

text \<open>
  The values of \<open>currentNum\<close>, \<open>steps\<close>, \<open>sequence\<close> and the calculator with which the loop
  body is entered for the \<open>k\<close>-th time (counting from 0), if the loop gets that far.
\<close>

fun iteration ::
  "nat \<Rightarrow> bool \<Rightarrow> int \<Rightarrow> nat \<Rightarrow> int list \<Rightarrow> CollatzCalculator \<Rightarrow>
   (int \<times> nat \<times> int list \<times> CollatzCalculator) option"
where
  "iteration 0 useCache currentNum steps0 seq c =
     (if currentNum \<noteq> 1 then Some (currentNum, steps0, seq, c) else None)"
| "iteration (Suc k) useCache currentNum steps0 seq c =
     (if currentNum \<noteq> 1 then
        (case loop_body useCache currentNum steps0 seq c of
           Inl exit \<Rightarrow> None
         | Inr (currentNum', steps', seq', c') \<Rightarrow> iteration k useCache currentNum' steps' seq' c')
      else None)"

text \<open>The same for a call \<open>calculateSequence(n, useCache)\<close>, from its start.\<close>

definition calculateSequence_iteration ::
  "nat \<Rightarrow> int \<Rightarrow> bool \<Rightarrow> CollatzCalculator \<Rightarrow>
   (int \<times> nat \<times> int list \<times> CollatzCalculator) option"
where
  "calculateSequence_iteration k n useCache c =
     (if n \<le> 0 then None
      else case lookup useCache c n of
        (Some cached, c') \<Rightarrow> None
      | (None, c') \<Rightarrow> iteration k useCache n 0 [n] c')"

text \<open>
  \<open>*generateRange(start, end)\<close>: the batches the generator yields, in order.  The loop
  variable and the batch end are computed in doubles: \<open>i + this.batchSize - 1\<close> is
  \<open>(i + this.batchSize) - 1\<close>, rounded after each operation, and \<open>i += this.batchSize\<close>
  rounds too.  When the loop variable does not advance (a batch size of 0, or a sum that
  rounds back to \<open>i\<close>) the generator never finishes.
\<close>

record Batch =
  batch_start :: int
  batch_end :: int

partial_function (option) generateRange_from :: "nat \<Rightarrow> int \<Rightarrow> int \<Rightarrow> Batch list option" where
  "generateRange_from B i end' =
     (if i \<le> end' then
        Option.bind (generateRange_from B (roundDouble (i + int B)) end')
          (\<lambda>later. Some (\<lparr>batch_start = i,
                             batch_end = min (roundDouble (roundDouble (i + int B) - 1)) end'\<rparr>
                           # later))
      else Some [])"

declare generateRange_from.simps [code]

definition generateRange :: "CollatzCalculator \<Rightarrow> int \<Rightarrow> int \<Rightarrow> Batch list option" where
  "generateRange c start end' = generateRange_from (batchSize c) start end'"

text \<open>
  \<open>processBatch(start, end, useCache)\<close>.  An entry is \<open>{ number: i, ...result }\<close>.  The
  \<open>catch\<close> clause logs the error and returns the \<open>results\<close> array as it stands; the logged
  error is the second component of the value (\<open>None\<close> when nothing was caught).  The pause
  under memory pressure changes no variable.  \<open>i++\<close> is an addition in doubles: from
  \<open>2^53\<close> on it can leave \<open>i\<close> as it is, and then the loop never ends while the computation
  for \<open>i\<close> succeeds.
\<close>

record BatchEntry = CollatzResult +
  number :: int

definition entry :: "int \<Rightarrow> CollatzResult \<Rightarrow> BatchEntry" where
  "entry i r = \<lparr>steps = steps r, sequence = sequence r, cacheHit = cacheHit r, number = i\<rparr>"

partial_function (option) processBatch_loop ::
  "nat \<Rightarrow> int \<Rightarrow> int \<Rightarrow> bool \<Rightarrow> BatchEntry list \<Rightarrow> CollatzCalculator \<Rightarrow>
   (BatchEntry list \<times> error option \<times> CollatzCalculator) option"
where
  "processBatch_loop fuel i end' useCache acc c =
     (if i \<le> end' then
        (case calculateSequence fuel i useCache (snd (memoryPressure i c)) of
           None \<Rightarrow> None
         | Some (Inl e, c') \<Rightarrow> Some (acc, Some e, c')
         | Some (Inr r, c') \<Rightarrow>
             processBatch_loop fuel (roundDouble (i + 1)) end' useCache (acc @ [entry i r]) c')
      else Some (acc, None, c))"

declare processBatch_loop.simps [code]

definition processBatch ::
  "nat \<Rightarrow> int \<Rightarrow> int \<Rightarrow> bool \<Rightarrow> CollatzCalculator \<Rightarrow>
   (BatchEntry list \<times> error option \<times> CollatzCalculator) option"
where
  "processBatch fuel start end' useCache c = processBatch_loop fuel start end' useCache [] c"

text \<open>
  The calculators that the engine's own operations produce: a fresh calculator, then any
  number of \<open>calculateSequence\<close> and \<open>processBatch\<close> calls and of \<open>cache.clear()\<close> calls (the
  benchmark harness clears the cache between samples), while the environment supplies
  whatever readings it likes.
\<close>

inductive reachable :: "CollatzCalculator \<Rightarrow> bool" where
  fresh: "reachable (new_CollatzCalculator config now readings)"
| calc: "reachable c \<Longrightarrow> calculateSequence fuel n useCache c = Some (out, c') \<Longrightarrow> reachable c'"
| batch: "reachable c \<Longrightarrow> processBatch fuel start end' useCache c = Some (res, logged, c')
          \<Longrightarrow> reachable c'"
| cleared: "reachable c \<Longrightarrow> reachable (c\<lparr>calc_cache := clear (calc_cache c)\<rparr>)"
| readings: "reachable c \<Longrightarrow> reachable (c\<lparr>env := rs\<rparr>)"

section \<open>PerformanceAnalyzer.js: class PerformanceAnalyzer\<close>

text \<open>
  A sample is what \<open>PerformanceMonitor.measure\<close> returns for one run of \<open>processBatch\<close>:
  the measured time and memory, and the \<open>results\<close> array of the run.  Times and memory
  sizes are doubles in the source and exact reals here; the hit counts are whole numbers,
  and their mean is the exact quotient.
\<close>

record Sample =
  executionTime :: real
  memoryUsed :: real
  peakMemoryUsed :: real
  results :: "BatchEntry list"

record BatchMetrics = Sample +
  cacheHits :: real

text \<open>
  \<open>calculateAverageMetrics(samples)\<close>.  On an empty array \<open>samples[0].results\<close> reads a
  property of \<open>undefined\<close>, which throws.
\<close>

definition calculateAverageMetrics :: "Sample list \<Rightarrow> error + BatchMetrics" where
  "calculateAverageMetrics samples =
     (case samples of
        [] \<Rightarrow> Inl TypeError
      | first # _ \<Rightarrow>
          Inr \<lparr>executionTime =
                 foldl (\<lambda>acc s. acc + executionTime s) 0 samples / real (length samples),
               memoryUsed =
                 foldl (\<lambda>acc s. acc + memoryUsed s) 0 samples / real (length samples),
               peakMemoryUsed = Max (set (map memoryUsed samples)),
               results = results first,
               cacheHits =
                 real (foldl (\<lambda>acc s. acc + length (filter cacheHit (results s))) 0 samples)
                 / real (length samples)\<rparr>)"

text \<open>
  The running totals of one configuration (\<open>results.withCache\<close> or \<open>results.withoutCache\<close>).
  The source field \<open>cacheHits\<close> of the totals is \<open>total_cacheHits\<close> here, to keep it apart
  from the field of the batch metrics; an absent field reads as 0 through
  \<open>metrics.cacheHits || 0\<close>.
\<close>

record Metrics =
  totalTime :: real
  memoryProfile :: "real list"
  total_cacheHits :: nat
  maxSteps :: nat
  peakMemory :: real
  averageMemory :: real

text \<open>The callback of \<open>batchMetrics.results.forEach\<close> in \<open>updateMetrics\<close>.\<close>

definition recordResult :: "Metrics \<Rightarrow> BatchEntry \<Rightarrow> Metrics" where
  "recordResult metrics result =
     (let m = metrics\<lparr>maxSteps := max (maxSteps metrics) (steps result)\<rparr>
      in if cacheHit result then m\<lparr>total_cacheHits := total_cacheHits m + 1\<rparr> else m)"

definition updateMetrics :: "Metrics \<Rightarrow> BatchMetrics \<Rightarrow> Metrics" where
  "updateMetrics metrics batchMetrics =
     (let m1 = metrics\<lparr>totalTime := totalTime metrics + executionTime batchMetrics,
                       memoryProfile := memoryProfile metrics @ [memoryUsed batchMetrics],
                       peakMemory := max (peakMemory metrics) (peakMemoryUsed batchMetrics)\<rparr>;
          m2 = foldl recordResult m1 (results batchMetrics)
      in m2\<lparr>averageMemory :=
               foldl (+) 0 (memoryProfile m2) / real (length (memoryProfile m2))\<rparr>)"

text \<open>
  \<open>cacheHitRate: (results.withCache.cacheHits / count) * 100\<close> with
  \<open>count = end - start + 1\<close>, from \<open>generateDetailedReport\<close>.  For a count of 0 the
  quotient is \<open>NaN\<close> or \<open>Infinity\<close>, which is no real number: \<open>None\<close>.
\<close>

definition cacheHitRate :: "Metrics \<Rightarrow> int \<Rightarrow> int \<Rightarrow> real option" where
  "cacheHitRate withCache start end' =
     (let count = roundDouble (roundDouble (end' - start) + 1)
      in if count = 0 then None
         else Some (real (total_cacheHits withCache) / real_of_int count * 100))"

text \<open>
  A tiling of \<open>[i, e]\<close> by batches of size \<open>B\<close>, in exact arithmetic: each batch starts
  where the one before ended plus 1 and ends at \<open>min (i + B - 1) e\<close>.
\<close>

fun tiles :: "nat \<Rightarrow> int \<Rightarrow> int \<Rightarrow> Batch list \<Rightarrow> bool" where
  "tiles B i e [] \<longleftrightarrow> e < i"
| "tiles B i e (b # bs) \<longleftrightarrow>
     i \<le> e \<and> batch_start b = i \<and> batch_end b = min (i + int B - 1) e
     \<and> tiles B (i + int B) e bs"

text \<open>
  Invariants of a calculator.  A cache entry is valid when an uncached run from its key
  returns exactly that entry; the cache is in order when its two maps hold the same keys,
  its capacity is at least 1 and its size is within the capacity.
\<close>

definition valid_entry :: "int \<Rightarrow> CollatzResult \<Rightarrow> bool" where
  "valid_entry k e \<longleftrightarrow> (\<exists>fuel c c'. calculateSequence fuel k False c = Some (Inr e, c'))"

definition entries_valid :: "CollatzCalculator \<Rightarrow> bool" where
  "entries_valid c \<longleftrightarrow> (\<forall>(k, e) \<in> set (cache (calc_cache c)). valid_entry k e)"

definition lru_ok :: "('k, 'v) LRUCache \<Rightarrow> bool" where
  "lru_ok lc \<longleftrightarrow> keys_agree lc \<and> 1 \<le> maxSize lc \<and> size_lru lc \<le> maxSize lc"

definition calc_inv :: "CollatzCalculator \<Rightarrow> bool" where
  "calc_inv c \<longleftrightarrow> lru_ok (calc_cache c) \<and> entries_valid c"

section \<open>Properties of the rounding\<close>

lemma ulp_small: "m < 9007199254740992 \<Longrightarrow> ulp m = 1"
  by (simp add: ulp.simps)

lemma ulp_step: "9007199254740992 \<le> m \<Longrightarrow> ulp m = 2 * ulp (m div 2)"
  by (simp add: ulp.simps [of m])

lemma ulp_big:
  "9007199254740992 \<le> m \<Longrightarrow> 2 \<le> ulp m \<and> 4503599627370496 \<le> m div ulp m"
proof (induction m rule: ulp.induct)
  case (1 m)
  show ?case
  proof (cases "m div 2 < 9007199254740992")
    case True
    with "1.prems" have "ulp m = 2" by (simp add: ulp_step ulp_small)
    with "1.prems" show ?thesis by simp
  next
    case False
    with "1.prems" "1.IH" have ih: "2 \<le> ulp (m div 2)"
      "4503599627370496 \<le> (m div 2) div ulp (m div 2)" by simp_all
    from "1.prems" have u: "ulp m = 2 * ulp (m div 2)" by (rule ulp_step)
    from ih(1) have "m div (2 * ulp (m div 2)) = (m div 2) div ulp (m div 2)"
      by (simp add: zdiv_zmult2_eq)
    with ih u show ?thesis by simp
  qed
qed

text \<open>Integers of magnitude up to \<open>2^53\<close> are doubles; larger ones stay at least \<open>2^53\<close>.\<close>

lemma roundDouble_exact: "\<bar>x\<bar> \<le> 9007199254740992 \<Longrightarrow> roundDouble x = x"
proof (cases "\<bar>x\<bar> < 9007199254740992")
  case True
  then show ?thesis by (simp add: roundDouble_def ulp_small Let_def sgn_if)
next
  case False
  moreover assume "\<bar>x\<bar> \<le> 9007199254740992"
  ultimately have "\<bar>x\<bar> = 9007199254740992" by simp
  then have "x = 9007199254740992 \<or> x = - 9007199254740992" by arith
  then show ?thesis by (auto simp: roundDouble_def ulp_small ulp_step Let_def)
qed

lemma roundDouble_big: "9007199254740992 \<le> x \<Longrightarrow> 9007199254740992 \<le> roundDouble x"
proof -
  assume x: "9007199254740992 \<le> x"
  then have u: "2 \<le> ulp x" and q: "4503599627370496 \<le> x div ulp x"
    using ulp_big by blast+
  let ?q' = "if 2 * (x mod ulp x) > ulp x \<or> (2 * (x mod ulp x) = ulp x \<and> odd (x div ulp x))
    then x div ulp x + 1 else x div ulp x"
  from q have "4503599627370496 \<le> ?q'" by simp
  with u have "4503599627370496 * 2 \<le> ?q' * ulp x" by (intro mult_mono) simp_all
  moreover from x have "roundDouble x = ?q' * ulp x"
    by (simp add: roundDouble_def Let_def)
  ultimately show ?thesis by simp
qed

lemma roundDouble_safe: "isSafeInteger x \<Longrightarrow> roundDouble x = x"
  by (rule roundDouble_exact) (auto simp: isSafeInteger_def MAX_SAFE_INTEGER_def)

section \<open>Properties of LRUCache\<close>

lemma keys_delete: "fst ` set (AList.delete k al) = fst ` set al - {k}"
  by (induction al) auto

lemma length_delete_less:
  assumes "k \<in> fst ` set al"
  shows "length (AList.delete k al) < length al"
proof -
  from assms obtain v where "(k, v) \<in> set al" by force
  then have "length (filter (\<lambda>(k', _). k \<noteq> k') al) < length al"
    by (rule length_filter_less) simp
  then show ?thesis by (simp add: AList.delete_eq)
qed

lemma length_update_le: "length (AList.update k v al) \<le> Suc (length al)"
  by (induction al) auto

lemma keys_agree_new: "keys_agree (new_LRUCache m)"
  by (simp add: keys_agree_def new_LRUCache_def)

lemma keys_agree_clear: "keys_agree (clear c)"
  by (simp add: keys_agree_def clear_def)

lemma keys_agree_get: "keys_agree c \<Longrightarrow> keys_agree (snd (get c k))"
  by (auto simp: keys_agree_def get_def updateUsage_def AList.dom_update)

lemma size_get: "size_lru (snd (get c k)) = size_lru c"
  by (simp add: get_def updateUsage_def size_lru_def)

lemma maxSize_get: "maxSize (snd (get c k)) = maxSize c"
  by (simp add: get_def updateUsage_def)

lemma evict_victim:
  assumes "usage c \<noteq> []"
  obtains k u where "(k, u) \<in> set (usage c)" "\<forall>(k', u') \<in> set (usage c). u \<le> u'"
    "evictLeastUsed c = Inr (c\<lparr>cache := AList.delete k (cache c),
                                usage := AList.delete k (usage c)\<rparr>)"
proof -
  from assms have "sort_key snd (usage c) \<noteq> []"
    by (metis length_sort length_0_conv)
  then obtain k u rest where s: "sort_key snd (usage c) = (k, u) # rest"
    by (cases "sort_key snd (usage c)") auto
  have "set (sort_key snd (usage c)) = set (usage c)" by simp
  with s have mem: "(k, u) \<in> set (usage c)" and sub: "set rest \<subseteq> set (usage c)"
    and all: "set (usage c) = insert (k, u) (set rest)" by auto
  have "sorted (map snd (sort_key snd (usage c)))" by (rule sorted_sort_key)
  with s have "\<forall>p \<in> set rest. u \<le> snd p" by simp
  with all have least: "\<forall>(k', u') \<in> set (usage c). u \<le> u'" by auto
  from s have "evictLeastUsed c = Inr (c\<lparr>cache := AList.delete k (cache c),
                                          usage := AList.delete k (usage c)\<rparr>)"
    by (simp add: evictLeastUsed_def)
  with mem least show thesis by (rule that)
qed

lemma set_lru_ok:
  assumes ka: "keys_agree c" and cap: "1 \<le> maxSize c" and sz: "size_lru c \<le> maxSize c"
  obtains c' where "set_lru c k v = Inr c'" "keys_agree c'" "maxSize c' = maxSize c"
    "size_lru c' \<le> maxSize c"
proof (cases "length (cache c) \<ge> maxSize c")
  case False
  let ?c' = "updateUsage (c\<lparr>cache := AList.update k v (cache c)\<rparr>) k"
  from False have "set_lru c k v = Inr ?c'" by (simp add: set_lru_def)
  moreover from ka have "keys_agree ?c'"
    by (simp add: keys_agree_def updateUsage_def AList.dom_update)
  moreover have "maxSize ?c' = maxSize c" by (simp add: updateUsage_def)
  moreover from False have "size_lru ?c' \<le> maxSize c"
    using length_update_le [of k v "cache c"] by (simp add: size_lru_def updateUsage_def)
  ultimately show thesis by (rule that)
next
  case True
  with cap have "cache c \<noteq> []" by auto
  with ka have "usage c \<noteq> []" by (auto simp: keys_agree_def)
  then obtain w u where w: "(w, u) \<in> set (usage c)"
    and ev: "evictLeastUsed c = Inr (c\<lparr>cache := AList.delete w (cache c),
                                        usage := AList.delete w (usage c)\<rparr>)"
    by (rule evict_victim)
  let ?d = "c\<lparr>cache := AList.delete w (cache c), usage := AList.delete w (usage c)\<rparr>"
  let ?c' = "updateUsage (?d\<lparr>cache := AList.update k v (cache ?d)\<rparr>) k"
  from True ev have "set_lru c k v = Inr ?c'" by (simp add: set_lru_def)
  moreover from ka have "keys_agree ?c'"
    by (simp add: keys_agree_def updateUsage_def AList.dom_update keys_delete)
  moreover have "maxSize ?c' = maxSize c" by (simp add: updateUsage_def)
  moreover have "size_lru ?c' \<le> maxSize c"
  proof -
    from w ka have "w \<in> fst ` set (cache c)" by (force simp: keys_agree_def)
    then have "length (AList.delete w (cache c)) < length (cache c)"
      by (rule length_delete_less)
    with sz length_update_le [of k v "AList.delete w (cache c)"] show ?thesis
      by (simp add: size_lru_def updateUsage_def)
  qed
  ultimately show thesis by (rule that)
qed

lemma apply_op_ok:
  assumes "keys_agree c" "1 \<le> maxSize c" "size_lru c \<le> maxSize c"
  shows "\<exists>c'. apply_op c x = Inr c' \<and> keys_agree c' \<and> maxSize c' = maxSize c
               \<and> size_lru c' \<le> maxSize c"
proof (cases x)
  case (Get k)
  with assms show ?thesis by (simp add: keys_agree_get size_get maxSize_get)
next
  case (Set k v)
  from assms obtain c' where "set_lru c k v = Inr c'" "keys_agree c'"
    "maxSize c' = maxSize c" "size_lru c' \<le> maxSize c"
    by (rule set_lru_ok)
  with Set show ?thesis by simp
next
  case Clear
  then show ?thesis by (simp add: keys_agree_clear) (simp add: clear_def size_lru_def)
qed

lemma run_ops_ok:
  "keys_agree c \<Longrightarrow> 1 \<le> maxSize c \<Longrightarrow> size_lru c \<le> maxSize c \<Longrightarrow>
   \<exists>c'. run_ops c xs = Inr c' \<and> keys_agree c' \<and> maxSize c' = maxSize c
        \<and> size_lru c' \<le> maxSize c"
proof (induction xs arbitrary: c)
  case Nil
  then show ?case by simp
next
  case (Cons x xs)
  from Cons.prems obtain d where d: "apply_op c x = Inr d" "keys_agree d"
    "maxSize d = maxSize c" "size_lru d \<le> maxSize c"
    using apply_op_ok by blast
  with Cons.prems Cons.IH [of d] show ?case by simp
qed

text \<open>
  C3.  A cache built with capacity \<open>C \<ge> 1\<close> runs every finite sequence of \<open>get\<close>, \<open>set\<close>
  and \<open>clear\<close> calls without an exception, and afterwards \<open>size() \<le> C\<close>.  The sequence is
  arbitrary, so the bound holds after each of its prefixes, that is after every operation.
\<close>

theorem C3_size_within_capacity:
  assumes "1 \<le> C"
  shows "\<exists>c. run_ops (new_LRUCache C) ops = Inr c \<and> size_lru c \<le> C"
proof -
  have "keys_agree (new_LRUCache C :: ('a, 'b) LRUCache)" by (rule keys_agree_new)
  moreover have "1 \<le> maxSize (new_LRUCache C :: ('a, 'b) LRUCache)"
    using assms by (simp add: new_LRUCache_def)
  moreover have "size_lru (new_LRUCache C :: ('a, 'b) LRUCache)
                   \<le> maxSize (new_LRUCache C :: ('a, 'b) LRUCache)"
    by (simp add: new_LRUCache_def size_lru_def)
  ultimately obtain c where "run_ops (new_LRUCache C) ops = Inr c"
    "size_lru c \<le> maxSize (new_LRUCache C :: ('a, 'b) LRUCache)"
    using run_ops_ok by blast
  then show ?thesis by (auto simp: new_LRUCache_def)
qed

theorem C3_size_within_capacity_witness:
  "(1::nat) \<le> 2 \<and>
   (\<exists>c. run_ops (new_LRUCache 2)
          [Set (1::int) (10::int), Set 2 20, Get 1, Set 3 30, Clear, Set 4 40] = Inr c
        \<and> size_lru c \<le> 2)"
  using C3_size_within_capacity [of 2 "[Set (1::int) (10::int), Set 2 20, Get 1, Set 3 30, Clear, Set 4 40]"]
  by simp

text \<open>
  C5 as stated fails: \<open>set\<close> tests the size only, never whether the key is present.  In a
  cache of capacity 2 holding keys 1 (read once more) and 2, overwriting key 1 evicts key 2.
\<close>

theorem C5_counterexample:
  "run_ops (new_LRUCache 2) [Set (1::int) (10::int), Get 1, Set 2 20]
     = Inr \<lparr>maxSize = 2, cache = [(1, 10), (2, 20)], usage = [(1, 2), (2, 1)]\<rparr>
   \<and> maxSize \<lparr>maxSize = 2, cache = [(1::int, 10::int), (2, 20)], usage = [(1, 2), (2, 1)]\<rparr>
       \<le> size_lru \<lparr>maxSize = 2, cache = [(1::int, 10::int), (2, 20)], usage = [(1, 2), (2, 1)]\<rparr>
   \<and> (1::int) \<in> fst ` set [(1, 10::int), (2, 20)]
   \<and> set_lru \<lparr>maxSize = 2, cache = [(1::int, 10::int), (2, 20)], usage = [(1, 2), (2, 1)]\<rparr> 1 11
     = Inr \<lparr>maxSize = 2, cache = [(1, 11)], usage = [(1, 3)]\<rparr>"
  by (simp add: new_LRUCache_def set_lru_def get_def updateUsage_def evictLeastUsed_def
      size_lru_def)

text \<open>
  C5, amended.  In a cache whose two maps hold the same keys and whose capacity is at least 1,
  \<open>set(key, value)\<close> first evicts one entry, a key whose usage counter is least, exactly when
  \<open>size() \<ge> C\<close>, whether or not \<open>key\<close> is already present; afterwards the cache holds the old
  entries without the victim, and \<open>key\<close> bound to \<open>value\<close>.  Below capacity nothing is
  evicted.
\<close>

theorem C5_set_evicts_when_full:
  assumes "keys_agree c" and "1 \<le> maxSize c"
  shows "(maxSize c \<le> size_lru c \<longrightarrow>
            (\<exists>victim u c'. (victim, u) \<in> set (usage c) \<and> victim \<in> fst ` set (cache c)
               \<and> (\<forall>(k', u') \<in> set (usage c). u \<le> u')
               \<and> set_lru c key val = Inr c'
               \<and> map_of (cache c') = ((map_of (cache c))(victim := None))(key \<mapsto> val)))
       \<and> (size_lru c < maxSize c \<longrightarrow>
            (\<exists>c'. set_lru c key val = Inr c'
               \<and> map_of (cache c') = (map_of (cache c))(key \<mapsto> val)))"
proof (intro conjI impI)
  assume full: "maxSize c \<le> size_lru c"
  with assms have "cache c \<noteq> []" by (auto simp: size_lru_def)
  with assms have "usage c \<noteq> []" by (auto simp: keys_agree_def)
  then obtain w u where w: "(w, u) \<in> set (usage c)"
    and least: "\<forall>(k', u') \<in> set (usage c). u \<le> u'"
    and ev: "evictLeastUsed c = Inr (c\<lparr>cache := AList.delete w (cache c),
                                        usage := AList.delete w (usage c)\<rparr>)"
    by (rule evict_victim)
  let ?d = "c\<lparr>cache := AList.delete w (cache c), usage := AList.delete w (usage c)\<rparr>"
  let ?c' = "updateUsage (?d\<lparr>cache := AList.update key val (cache ?d)\<rparr>) key"
  from full ev have "set_lru c key val = Inr ?c'" by (simp add: set_lru_def size_lru_def)
  moreover have "map_of (cache ?c') = ((map_of (cache c))(w := None))(key \<mapsto> val)"
    by (simp add: updateUsage_def AList.update_conv' AList.delete_conv')
  moreover from w assms have "w \<in> fst ` set (cache c)" by (force simp: keys_agree_def)
  ultimately show "\<exists>victim u c'. (victim, u) \<in> set (usage c) \<and> victim \<in> fst ` set (cache c)
               \<and> (\<forall>(k', u') \<in> set (usage c). u \<le> u')
               \<and> set_lru c key val = Inr c'
               \<and> map_of (cache c') = ((map_of (cache c))(victim := None))(key \<mapsto> val)"
    using w least by blast
next
  assume "size_lru c < maxSize c"
  then show "\<exists>c'. set_lru c key val = Inr c'
               \<and> map_of (cache c') = (map_of (cache c))(key \<mapsto> val)"
    by (simp add: set_lru_def size_lru_def updateUsage_def AList.update_conv')
qed

theorem C5_set_evicts_when_full_witness:
  "keys_agree \<lparr>maxSize = 2, cache = [(1::int, 10::int), (2, 20)], usage = [(1, 2), (2, 1)]\<rparr>
   \<and> (1::nat) \<le> 2
   \<and> (\<exists>victim u c'. (victim, u) \<in> set [(1::int, 2::nat), (2, 1)]
         \<and> victim \<in> fst ` set [(1::int, 10::int), (2, 20)]
         \<and> (\<forall>(k', u') \<in> set [(1::int, 2::nat), (2, 1)]. u \<le> u')
         \<and> set_lru \<lparr>maxSize = 2, cache = [(1::int, 10::int), (2, 20)],
                      usage = [(1, 2), (2, 1)]\<rparr> 1 11 = Inr c'
         \<and> map_of (cache c') = ((map_of [(1::int, 10::int), (2, 20)])(victim := None))(1 \<mapsto> 11))"
  using C5_set_evicts_when_full
    [of "\<lparr>maxSize = 2, cache = [(1::int, 10::int), (2, 20)], usage = [(1, 2), (2, 1)]\<rparr>" 1 11]
  by (simp add: keys_agree_def size_lru_def)

section \<open>Properties of calculateSequence\<close>

lemma lookup_False: "lookup False c k = (None, c)"
  by (simp add: lookup_def)

lemma lookup_None: "lookup uc c k = (None, c') \<Longrightarrow> c' = c"
  by (auto simp: lookup_def get_def split: if_splits dest!: weak_map_of_SomeI)

lemma lookup_Some:
  assumes "lookup uc c k = (Some e, c')"
  shows "(k, e) \<in> set (cache (calc_cache c))"
    and "c' = c\<lparr>calc_cache := updateUsage (calc_cache c) k\<rparr>" and "uc"
  using assms by (auto simp: lookup_def get_def split: if_splits dest: map_of_SomeD)

lemma loop_body_cases:
  obtains
    (hit) e c' where "lookup uc (clearOnPressure s c) cur = (Some e, c')"
      "loop_body uc cur s sq c =
         Inl (Inr \<lparr>steps = s + steps e, sequence = sq @ tl (sequence e), cacheHit = True\<rparr>, c')"
  | (fail) er where "lookup uc (clearOnPressure s c) cur = (None, clearOnPressure s c)"
      "nextNum cur = Inl er" "loop_body uc cur s sq c = Inl (Inl er, clearOnPressure s c)"
  | (limit) nxt where "lookup uc (clearOnPressure s c) cur = (None, clearOnPressure s c)"
      "nextNum cur = Inr nxt" "int (s + 1) > MAX_SAFE_INTEGER"
      "loop_body uc cur s sq c = Inl (Inl StepLimitError, clearOnPressure s c)"
  | (step) nxt where "lookup uc (clearOnPressure s c) cur = (None, clearOnPressure s c)"
      "nextNum cur = Inr nxt" "int (s + 1) \<le> MAX_SAFE_INTEGER"
      "loop_body uc cur s sq c = Inr (nxt, s + 1, sq @ [nxt], clearOnPressure s c)"
proof (cases "lookup uc (clearOnPressure s c) cur")
  case (Pair found c')
  show thesis
  proof (cases found)
    case (Some e)
    with Pair show thesis by (intro hit [of e c']) (simp_all add: loop_body_def)
  next
    case None
    with Pair have c': "c' = clearOnPressure s c" by (auto dest: lookup_None)
    show thesis
    proof (cases "nextNum cur")
      case (Inl er)
      with Pair None c' show thesis by (intro fail [of er]) (simp_all add: loop_body_def)
    next
      case (Inr nxt)
      show thesis
      proof (cases "int (s + 1) > MAX_SAFE_INTEGER")
        case True
        with Pair None c' Inr show thesis by (intro limit [of nxt]) (simp_all add: loop_body_def)
      next
        case False
        with Pair None c' Inr show thesis by (intro step [of nxt]) (simp_all add: loop_body_def)
      qed
    qed
  qed
qed

lemma finish_False: "finish False n s sq c = (Inr \<lparr>steps = s, sequence = sq, cacheHit = False\<rparr>, c)"
  by (simp add: finish_def)

lemma uncached_shift:
  "calculateSequence_loop f False n cur s sq c = Some (Inr r, c') \<Longrightarrow> s2 \<le> s \<Longrightarrow>
   \<exists>t c2'. r = \<lparr>steps = s + length t, sequence = sq @ t, cacheHit = False\<rparr>
      \<and> last (cur # t) = 1
      \<and> calculateSequence_loop f False n2 cur s2 sq2 c2
          = Some (Inr \<lparr>steps = s2 + length t, sequence = sq2 @ t, cacheHit = False\<rparr>, c2')"
proof (induction f arbitrary: cur s sq c s2 sq2 c2)
  case 0
  then show ?case by (auto simp: finish_False split: if_splits)
next
  case (Suc f)
  show ?case
  proof (cases "cur = 1")
    case True
    with Suc.prems show ?thesis by (auto simp: finish_False)
  next
    case False
    from Suc.prems(1) False obtain nxt where nxt: "nextNum cur = Inr nxt"
      and lim: "int (s + 1) \<le> MAX_SAFE_INTEGER"
      and rec: "calculateSequence_loop f False n nxt (s + 1) (sq @ [nxt]) (clearOnPressure s c)
                  = Some (Inr r, c')"
      by (cases rule: loop_body_cases [of False s c cur sq]) (auto dest: lookup_Some)
    from Suc.prems(2) have "s2 + 1 \<le> s + 1" by simp
    then have "\<exists>t c2'. r = \<lparr>steps = s + 1 + length t, sequence = (sq @ [nxt]) @ t, cacheHit = False\<rparr>
      \<and> last (nxt # t) = 1
      \<and> calculateSequence_loop f False n2 nxt (s2 + 1) (sq2 @ [nxt]) (clearOnPressure s2 c2)
          = Some (Inr \<lparr>steps = s2 + 1 + length t, sequence = (sq2 @ [nxt]) @ t, cacheHit = False\<rparr>, c2')"
      by (rule Suc.IH [OF rec])
    then obtain t c2' where r: "r = \<lparr>steps = s + 1 + length t, sequence = (sq @ [nxt]) @ t, cacheHit = False\<rparr>"
      and l: "last (nxt # t) = 1"
      and run: "calculateSequence_loop f False n2 nxt (s2 + 1) (sq2 @ [nxt]) (clearOnPressure s2 c2)
          = Some (Inr \<lparr>steps = s2 + 1 + length t, sequence = (sq2 @ [nxt]) @ t, cacheHit = False\<rparr>, c2')"
      by blast
    from lim Suc.prems(2) have lim2: "int (s2 + 1) \<le> MAX_SAFE_INTEGER" by simp
    have body2: "loop_body False cur s2 sq2 c2 = Inr (nxt, s2 + 1, sq2 @ [nxt], clearOnPressure s2 c2)"
      using nxt lim2 by (cases rule: loop_body_cases [of False s2 c2 cur sq2]) (auto dest: lookup_Some)
    show ?thesis
      using r l run body2 False by (intro exI [of _ "nxt # t"] exI [of _ c2']) simp
  qed
qed

lemma fuel_mono:
  "calculateSequence_loop f uc n cur s sq c = Some y \<Longrightarrow>
   calculateSequence_loop (f + k) uc n cur s sq c = Some y"
proof (induction f arbitrary: cur s sq c)
  case 0
  then show ?case by (cases k) (auto split: if_splits)
next
  case (Suc f)
  then show ?case by (auto split: if_splits sum.splits prod.splits)
qed

lemma calculateSequence_False:
  "calculateSequence f n False c =
     (if n \<le> 0 then Some (Inl InvalidInputError, c) else calculateSequence_loop f False n n 0 [n] c)"
  by (simp add: calculateSequence_def lookup_False)

lemma valid_entryD:
  assumes "valid_entry k e"
  shows "\<exists>f t. 0 < k \<and> e = \<lparr>steps = length t, sequence = k # t, cacheHit = False\<rparr>
           \<and> last (k # t) = 1
           \<and> (\<forall>n c. \<exists>c'. calculateSequence_loop f False n k 0 [k] c = Some (Inr e, c'))"
proof -
  from assms obtain f c c' where run: "calculateSequence f k False c = Some (Inr e, c')"
    by (auto simp: valid_entry_def)
  then have pos: "0 < k" by (auto simp: calculateSequence_False split: if_splits)
  with run have loop: "calculateSequence_loop f False k k 0 [k] c = Some (Inr e, c')"
    by (simp add: calculateSequence_False)
  from uncached_shift [OF loop le_refl, of k "[k]" c]
  obtain t where e: "e = \<lparr>steps = 0 + length t, sequence = [k] @ t, cacheHit = False\<rparr>"
    and l: "last (k # t) = 1" by blast
  have "\<exists>c'. calculateSequence_loop f False n k 0 [k] d = Some (Inr e, c')" for n d
    using uncached_shift [OF loop le_refl, of n "[k]" d] e by auto
  with pos e l show ?thesis by (intro exI [of _ f] exI [of _ t]) auto
qed

lemma memoryPressure_fields:
  assumes "memoryPressure k c = (p, c1)"
  shows "calc_cache c1 = calc_cache c" "batchSize c1 = batchSize c"
    "memoryCheckFrequency c1 = memoryCheckFrequency c"
  using assms by (auto simp: memoryPressure_def split: if_splits prod.splits)

lemma clearOnPressure_cases:
  obtains (same) "calc_cache (clearOnPressure s c) = calc_cache c"
  | (cleared) "calc_cache (clearOnPressure s c) = clear (calc_cache c)"
proof (cases "memoryPressure (int s) c")
  case (Pair p c1)
  then have "calc_cache c1 = calc_cache c" by (rule memoryPressure_fields)
  with Pair show thesis
    by (cases p) (auto intro: same cleared simp: clearOnPressure_def)
qed

lemma entries_valid_clearOnPressure: "entries_valid c \<Longrightarrow> entries_valid (clearOnPressure s c)"
  by (cases rule: clearOnPressure_cases [of s c]) (auto simp: entries_valid_def clear_def)


lemma finish_Inr:
  "finish uc n s sq c = (Inr r, c') \<Longrightarrow> r = \<lparr>steps = s, sequence = sq, cacheHit = False\<rparr>"
  by (simp add: finish_def Let_def split: if_splits sum.splits)

lemma loop_at_one:
  "calculateSequence_loop f uc n 1 s sq c = Some (finish uc n s sq c)"
  by (cases f) simp_all

lemma loop_Suc:
  "cur \<noteq> 1 \<Longrightarrow> calculateSequence_loop (Suc f) uc n cur s sq c =
     (case loop_body uc cur s sq c of
        Inl exit \<Rightarrow> Some exit
      | Inr (cur', s', sq', c') \<Rightarrow> calculateSequence_loop f uc n cur' s' sq' c')"
  by simp

lemma loop_0: "cur \<noteq> 1 \<Longrightarrow> calculateSequence_loop 0 uc n cur s sq c = None"
  by simp

lemma loop_wellformed:
  "entries_valid c \<Longrightarrow> calculateSequence_loop f uc n cur s sq c = Some (Inr r, c') \<Longrightarrow>
   \<exists>t. sequence r = sq @ t \<and> steps r = s + length t \<and> last (cur # t) = 1"
proof (induction f arbitrary: cur s sq c)
  case 0
  show ?case
  proof (cases "cur = 1")
    case True
    with "0.prems"(2) have "finish uc n s sq c = (Inr r, c')" by (simp add: loop_at_one)
    then have "r = \<lparr>steps = s, sequence = sq, cacheHit = False\<rparr>" by (rule finish_Inr)
    with True show ?thesis by simp
  next
    case False
    with "0.prems"(2) show ?thesis by (simp add: loop_0)
  qed
next
  case (Suc f)
  show ?case
  proof (cases "cur = 1")
    case True
    with Suc.prems(2) have "finish uc n s sq c = (Inr r, c')" by (simp add: loop_at_one)
    then have "r = \<lparr>steps = s, sequence = sq, cacheHit = False\<rparr>" by (rule finish_Inr)
    with True show ?thesis by simp
  next
    case False
    have ev: "entries_valid (clearOnPressure s c)"
      using Suc.prems(1) by (rule entries_valid_clearOnPressure)
    note run = Suc.prems(2) [unfolded loop_Suc [OF False]]
    show ?thesis
    proof (cases rule: loop_body_cases [of uc s c cur sq])
      case (hit e d)
      then have "(cur, e) \<in> set (cache (calc_cache (clearOnPressure s c)))"
        by (auto dest: lookup_Some)
      with ev have "valid_entry cur e" by (auto simp: entries_valid_def)
      then obtain t where e: "e = \<lparr>steps = length t, sequence = cur # t, cacheHit = False\<rparr>"
        and l: "last (cur # t) = 1" using valid_entryD by blast
      from run hit(2) have "r = \<lparr>steps = s + steps e, sequence = sq @ tl (sequence e), cacheHit = True\<rparr>"
        by simp
      with e have "sequence r = sq @ t" "steps r = s + length t" by simp_all
      with l show ?thesis by blast
    next
      case (fail er)
      with run show ?thesis by simp
    next
      case (limit nxt)
      with run show ?thesis by simp
    next
      case (step nxt)
      with run
      have "calculateSequence_loop f uc n nxt (s + 1) (sq @ [nxt]) (clearOnPressure s c)
              = Some (Inr r, c')" by simp
      from Suc.IH [OF ev this] obtain t where "sequence r = (sq @ [nxt]) @ t"
        "steps r = s + 1 + length t" "last (nxt # t) = 1" by blast
      then show ?thesis by (intro exI [of _ "nxt # t"]) simp
    qed
  qed
qed


lemma set_update_subset: "set (AList.update k v al) \<subseteq> insert (k, v) (set al)"
  by (induction al) auto

lemma set_delete_subset: "set (AList.delete k al) \<subseteq> set al"
  by (auto simp: AList.delete_eq)

lemma set_lru_entries:
  assumes "set_lru lc k v = Inr lc'"
  shows "set (cache lc') \<subseteq> insert (k, v) (set (cache lc))"
proof (cases "length (cache lc) \<ge> maxSize lc")
  case False
  with assms have "lc' = updateUsage (lc\<lparr>cache := AList.update k v (cache lc)\<rparr>) k"
    by (simp add: set_lru_def)
  then show ?thesis using set_update_subset [of k v "cache lc"] by (simp add: updateUsage_def)
next
  case True
  with assms obtain d where ev: "evictLeastUsed lc = Inr d"
    and lc': "lc' = updateUsage (d\<lparr>cache := AList.update k v (cache d)\<rparr>) k"
    by (auto simp: set_lru_def split: sum.splits)
  from ev obtain w where "cache d = AList.delete w (cache lc)"
    by (auto simp: evictLeastUsed_def split: list.splits)
  then have "set (cache d) \<subseteq> set (cache lc)" by (simp add: set_delete_subset)
  with lc' show ?thesis using set_update_subset [of k v "cache d"]
    by (auto simp: updateUsage_def)
qed

lemma lru_ok_set_lru:
  assumes "lru_ok lc"
  obtains lc' where "set_lru lc k v = Inr lc'" "lru_ok lc'"
proof -
  from assms have "keys_agree lc" "1 \<le> maxSize lc" "size_lru lc \<le> maxSize lc"
    by (simp_all add: lru_ok_def)
  then obtain lc' where "set_lru lc k v = Inr lc'" "keys_agree lc'" "maxSize lc' = maxSize lc"
    "size_lru lc' \<le> maxSize lc" by (rule set_lru_ok)
  with assms show thesis by (intro that [of lc']) (simp_all add: lru_ok_def)
qed

lemma lru_ok_clear: "lru_ok lc \<Longrightarrow> lru_ok (clear lc)"
  by (simp add: lru_ok_def keys_agree_clear) (simp add: clear_def size_lru_def)

lemma lru_ok_updateUsage:
  "lru_ok lc \<Longrightarrow> k \<in> fst ` set (cache lc) \<Longrightarrow> lru_ok (updateUsage lc k)"
  by (auto simp: lru_ok_def keys_agree_def updateUsage_def size_lru_def AList.dom_update)

lemma lookup_cases:
  obtains (miss) "lookup uc c k = (None, c)"
  | (hit) e where "uc" "(k, e) \<in> set (cache (calc_cache c))"
      "lookup uc c k = (Some e, c\<lparr>calc_cache := updateUsage (calc_cache c) k\<rparr>)"
proof (cases "lookup uc c k")
  case (Pair found c')
  show thesis
  proof (cases found)
    case None
    with Pair show thesis by (auto dest: lookup_None intro: miss)
  next
    case (Some e)
    with Pair show thesis using lookup_Some [of uc c k e c'] by (auto intro: hit)
  qed
qed

lemma lookup_lru_ok:
  assumes "lookup uc c k = (found, c')" "lru_ok (calc_cache c)"
  shows "lru_ok (calc_cache c')"
proof (cases rule: lookup_cases [of uc c k])
  case miss
  with assms show ?thesis by simp
next
  case (hit e)
  then have "k \<in> fst ` set (cache (calc_cache c))" by force
  with assms hit show ?thesis by (auto intro: lru_ok_updateUsage)
qed

lemma lookup_entries:
  assumes "lookup uc c k = (found, c')"
  shows "cache (calc_cache c') = cache (calc_cache c)"
  using assms by (cases rule: lookup_cases [of uc c k]) (auto simp: updateUsage_def)

lemma clearOnPressure_lru_ok: "lru_ok (calc_cache c) \<Longrightarrow> lru_ok (calc_cache (clearOnPressure s c))"
  by (cases rule: clearOnPressure_cases [of s c]) (auto intro: lru_ok_clear)

lemma clearOnPressure_entries:
  "set (cache (calc_cache (clearOnPressure s c))) \<subseteq> set (cache (calc_cache c))"
  by (cases rule: clearOnPressure_cases [of s c]) (auto simp: clear_def)

lemma finish_cases:
  obtains (plain) "\<not> uc"
      "finish uc n s sq c = (Inr \<lparr>steps = s, sequence = sq, cacheHit = False\<rparr>, c)"
  | (stored) lc where "uc"
      "set_lru (calc_cache c) n \<lparr>steps = s, sequence = sq, cacheHit = False\<rparr> = Inr lc"
      "finish uc n s sq c
         = (Inr \<lparr>steps = s, sequence = sq, cacheHit = False\<rparr>, c\<lparr>calc_cache := lc\<rparr>)"
  | (threw) e where "uc"
      "set_lru (calc_cache c) n \<lparr>steps = s, sequence = sq, cacheHit = False\<rparr> = Inl e"
      "finish uc n s sq c = (Inl e, c)"
proof (cases uc)
  case False
  then show thesis by (intro plain) (simp_all add: finish_def)
next
  case True
  show thesis
  proof (cases "set_lru (calc_cache c) n \<lparr>steps = s, sequence = sq, cacheHit = False\<rparr>")
    case (Inl e)
    with True show thesis by (intro threw [of e]) (simp_all add: finish_def)
  next
    case (Inr lc)
    with True show thesis by (intro stored [of lc]) (simp_all add: finish_def)
  qed
qed

lemma finish_lru_ok:
  assumes "finish uc n s sq c = (out, c')" "lru_ok (calc_cache c)"
  shows "lru_ok (calc_cache c')"
proof (cases rule: finish_cases [where uc = uc and n = n and s = s and sq = sq and c = c])
  case plain
  with assms show ?thesis by simp
next
  case (stored lc)
  from assms(2) obtain lc' where "set_lru (calc_cache c) n \<lparr>steps = s, sequence = sq, cacheHit = False\<rparr> = Inr lc'"
    "lru_ok lc'" by (rule lru_ok_set_lru)
  with stored assms(1) show ?thesis by auto
next
  case (threw e)
  with assms show ?thesis by simp
qed

lemma finish_entries:
  assumes "finish uc n s sq c = (out, c')"
  shows "set (cache (calc_cache c')) \<subseteq> set (cache (calc_cache c))
           \<union> {(n, r) |r. out = Inr r \<and> r = \<lparr>steps = s, sequence = sq, cacheHit = False\<rparr> \<and> uc}"
proof (cases rule: finish_cases [where uc = uc and n = n and s = s and sq = sq and c = c])
  case plain
  with assms show ?thesis by auto
next
  case (stored lc)
  with assms set_lru_entries [OF stored(2)] show ?thesis by auto
next
  case (threw e)
  with assms show ?thesis by auto
qed


lemma loop_induct [consumes 1, case_names finish hit fail limit step]:
  assumes run: "calculateSequence_loop f uc n cur s sq c = Some (out, c')"
    and finish: "\<And>f s sq c. finish uc n s sq c = (out, c') \<Longrightarrow> P f 1 s sq c"
    and hit: "\<And>f cur s sq c e. cur \<noteq> 1 \<Longrightarrow>
        lookup uc (clearOnPressure s c) cur = (Some e, c') \<Longrightarrow>
        loop_body uc cur s sq c = Inl (out, c') \<Longrightarrow>
        out = Inr \<lparr>steps = s + steps e, sequence = sq @ tl (sequence e), cacheHit = True\<rparr> \<Longrightarrow>
        P (Suc f) cur s sq c"
    and fail: "\<And>f cur s sq c er. cur \<noteq> 1 \<Longrightarrow>
        lookup uc (clearOnPressure s c) cur = (None, clearOnPressure s c) \<Longrightarrow>
        nextNum cur = Inl er \<Longrightarrow> loop_body uc cur s sq c = Inl (out, c') \<Longrightarrow>
        out = Inl er \<Longrightarrow> c' = clearOnPressure s c \<Longrightarrow>
        P (Suc f) cur s sq c"
    and limit: "\<And>f cur s sq c nxt. cur \<noteq> 1 \<Longrightarrow>
        lookup uc (clearOnPressure s c) cur = (None, clearOnPressure s c) \<Longrightarrow>
        nextNum cur = Inr nxt \<Longrightarrow> int (s + 1) > MAX_SAFE_INTEGER \<Longrightarrow>
        loop_body uc cur s sq c = Inl (out, c') \<Longrightarrow>
        out = Inl StepLimitError \<Longrightarrow> c' = clearOnPressure s c \<Longrightarrow>
        P (Suc f) cur s sq c"
    and step: "\<And>f cur s sq c nxt. cur \<noteq> 1 \<Longrightarrow>
        lookup uc (clearOnPressure s c) cur = (None, clearOnPressure s c) \<Longrightarrow>
        nextNum cur = Inr nxt \<Longrightarrow> int (s + 1) \<le> MAX_SAFE_INTEGER \<Longrightarrow>
        loop_body uc cur s sq c = Inr (nxt, s + 1, sq @ [nxt], clearOnPressure s c) \<Longrightarrow>
        calculateSequence_loop f uc n nxt (s + 1) (sq @ [nxt]) (clearOnPressure s c)
          = Some (out, c') \<Longrightarrow>
        P f nxt (s + 1) (sq @ [nxt]) (clearOnPressure s c) \<Longrightarrow>
        P (Suc f) cur s sq c"
  shows "P f cur s sq c"
  using run
proof (induction f arbitrary: cur s sq c)
  case 0
  show ?case
  proof (cases "cur = 1")
    case True
    with "0.prems" show ?thesis by (auto simp: loop_at_one intro: finish)
  next
    case False
    with "0.prems" show ?thesis by (simp add: loop_0)
  qed
next
  case (Suc f)
  show ?case
  proof (cases "cur = 1")
    case True
    with Suc.prems show ?thesis by (auto simp: loop_at_one intro: finish)
  next
    case False
    note run = Suc.prems [unfolded loop_Suc [OF False]]
    show ?thesis
    proof (cases rule: loop_body_cases [of uc s c cur sq])
      case (hit e d)
      with run have "out = Inr \<lparr>steps = s + steps e, sequence = sq @ tl (sequence e), cacheHit = True\<rparr>"
        "d = c'" by simp_all
      with False hit show ?thesis by (intro assms(3) [of cur s c e sq f]) simp_all
    next
      case (fail er)
      with run have "out = Inl er" "c' = clearOnPressure s c" by simp_all
      with False fail show ?thesis by (intro assms(4) [of cur s c er sq f]) simp_all
    next
      case (limit nxt)
      with run have "out = Inl StepLimitError" "c' = clearOnPressure s c" by simp_all
      with False limit show ?thesis by (intro assms(5) [of cur s c nxt sq f]) simp_all
    next
      case (step nxt)
      with run have r: "calculateSequence_loop f uc n nxt (s + 1) (sq @ [nxt]) (clearOnPressure s c)
          = Some (out, c')" by simp
      from False step(1,2,3,4) r Suc.IH [OF r] show ?thesis by (rule assms(6))
    qed
  qed
qed


lemma body_uncached_step:
  "nextNum cur = Inr nxt \<Longrightarrow> int (s + 1) \<le> MAX_SAFE_INTEGER \<Longrightarrow>
   loop_body False cur s sq d = Inr (nxt, s + 1, sq @ [nxt], clearOnPressure s d)"
  by (simp add: loop_body_def lookup_False)

lemma loop_lru_ok:
  assumes "calculateSequence_loop f uc n cur s sq c = Some (out, c')"
  shows "lru_ok (calc_cache c) \<Longrightarrow> lru_ok (calc_cache c')"
  using assms
proof (induction rule: loop_induct)
  case (finish f s sq c)
  then show ?case by (auto intro: finish_lru_ok)
next
  case (hit f cur s sq c e)
  then show ?case by (auto intro: lookup_lru_ok clearOnPressure_lru_ok)
next
  case (fail f cur s sq c er)
  then show ?case by (auto intro: clearOnPressure_lru_ok)
next
  case (limit f cur s sq c nxt)
  then show ?case by (auto intro: clearOnPressure_lru_ok)
next
  case (step f cur s sq c nxt)
  then show ?case by (auto intro: clearOnPressure_lru_ok)
qed

lemma loop_entries:
  assumes "calculateSequence_loop f uc n cur s sq c = Some (out, c')"
  shows "set (cache (calc_cache c')) \<subseteq> set (cache (calc_cache c))
           \<union> {(n, r) |r. out = Inr r \<and> \<not> cacheHit r \<and> uc}"
  using assms
proof (induction rule: loop_induct)
  case (finish f s sq c)
  from finish_entries [OF this] show ?case by auto
next
  case (hit f cur s sq c e)
  from lookup_entries [OF hit(2)] clearOnPressure_entries [of s c] show ?case by auto
next
  case (fail f cur s sq c er)
  with clearOnPressure_entries [of s c] show ?case by auto
next
  case (limit f cur s sq c nxt)
  with clearOnPressure_entries [of s c] show ?case by auto
next
  case (step f cur s sq c nxt)
  with clearOnPressure_entries [of s c] show ?case by blast
qed

lemma cached_nohit:
  assumes "calculateSequence_loop f uc n cur s sq c = Some (Inr r, c')" and "\<not> cacheHit r"
  shows "\<exists>d'. calculateSequence_loop f False n2 cur s sq d = Some (Inr r, d')"
  using assms(1)
proof (induction arbitrary: d rule: loop_induct)
  case (finish f s sq c)
  then have "r = \<lparr>steps = s, sequence = sq, cacheHit = False\<rparr>" by (rule finish_Inr)
  then show ?case by (simp add: loop_at_one finish_False)
next
  case (hit f cur s sq c e)
  with assms(2) show ?case by simp
next
  case (fail f cur s sq c er)
  then show ?case by simp
next
  case (limit f cur s sq c nxt)
  then show ?case by simp
next
  case (step f cur s sq c nxt)
  from step(3,4) have "loop_body False cur s sq d
      = Inr (nxt, s + 1, sq @ [nxt], clearOnPressure s d)" by (rule body_uncached_step)
  with step(1) step.IH [of "clearOnPressure s d"] show ?case by (simp add: loop_Suc)
qed

lemma uncached_agree:
  assumes run: "calculateSequence_loop f False n cur s sq d = Some (Inr r, d')"
    and ve: "valid_entry cur e"
  shows "steps r = s + steps e" "sequence r = sq @ tl (sequence e)"
proof -
  from ve obtain f0 t where e: "e = \<lparr>steps = length t, sequence = cur # t, cacheHit = False\<rparr>"
    and all: "\<forall>n c. \<exists>c'. calculateSequence_loop f0 False n cur 0 [cur] c = Some (Inr e, c')"
    using valid_entryD by blast
  from uncached_shift [OF run le0, of n "[cur]" d]
  obtain t' d2 where r: "r = \<lparr>steps = s + length t', sequence = sq @ t', cacheHit = False\<rparr>"
    and run0: "calculateSequence_loop f False n cur 0 [cur] d
        = Some (Inr \<lparr>steps = 0 + length t', sequence = [cur] @ t', cacheHit = False\<rparr>, d2)"
    by blast
  from all obtain d3 where "calculateSequence_loop f0 False n cur 0 [cur] d = Some (Inr e, d3)"
    by blast
  from fuel_mono [OF this, of f] fuel_mono [OF run0, of f0]
  have "e = \<lparr>steps = 0 + length t', sequence = [cur] @ t', cacheHit = False\<rparr>"
    by (simp add: add.commute)
  with r show "steps r = s + steps e" "sequence r = sq @ tl (sequence e)" by simp_all
qed

lemma cached_sim:
  assumes "calculateSequence_loop f False n0 cur s sq d = Some (Inr r, d')"
  shows "entries_valid c \<Longrightarrow> lru_ok (calc_cache c) \<Longrightarrow>
    \<exists>r' c'. calculateSequence_loop f True n cur s sq c = Some (Inr r', c')
       \<and> steps r' = steps r \<and> sequence r' = sequence r"
  using assms
proof (induction arbitrary: c rule: loop_induct)
  case (finish f s sq d)
  then have r: "r = \<lparr>steps = s, sequence = sq, cacheHit = False\<rparr>" by (auto dest: finish_Inr)
  from finish.prems(2) obtain lc where
    "set_lru (calc_cache c) n \<lparr>steps = s, sequence = sq, cacheHit = False\<rparr> = Inr lc"
    by (rule lru_ok_set_lru)
  then have "finish True n s sq c = (Inr r, c\<lparr>calc_cache := lc\<rparr>)"
    by (simp add: finish_def r)
  then show ?case by (simp add: loop_at_one)
next
  case (hit f cur s sq d e)
  then show ?case by (auto dest: lookup_Some)
next
  case (fail f cur s sq d er)
  then show ?case by simp
next
  case (limit f cur s sq d nxt)
  then show ?case by simp
next
  case (step f cur s sq d nxt)
  have whole: "calculateSequence_loop (Suc f) False n0 cur s sq d = Some (Inr r, d')"
    using step(1,5,6) by (simp add: loop_Suc)
  let ?c2 = "clearOnPressure s c"
  have ev: "entries_valid ?c2" using step.prems(1) by (rule entries_valid_clearOnPressure)
  have ok: "lru_ok (calc_cache ?c2)" using step.prems(2) by (rule clearOnPressure_lru_ok)
  show ?case
  proof (cases rule: lookup_cases [of True ?c2 cur])
    case miss
    with step(3,4) have "loop_body True cur s sq c = Inr (nxt, s + 1, sq @ [nxt], ?c2)"
      by (simp add: loop_body_def)
    with step(1) step.IH [OF ev ok] show ?thesis by (simp add: loop_Suc)
  next
    case (hit e)
    with ev have "valid_entry cur e" by (auto simp: entries_valid_def)
    from uncached_agree [OF whole this]
    have "steps r = s + steps e" "sequence r = sq @ tl (sequence e)" .
    moreover from hit(3) have "loop_body True cur s sq c
      = Inl (Inr \<lparr>steps = s + steps e, sequence = sq @ tl (sequence e), cacheHit = True\<rparr>,
             ?c2\<lparr>calc_cache := updateUsage (calc_cache ?c2) cur\<rparr>)"
      by (simp add: loop_body_def)
    ultimately show ?thesis using step(1) by (simp add: loop_Suc)
  qed
qed


lemma calc_inv_fresh: "calc_inv (new_CollatzCalculator config now rs)"
  by (simp add: calc_inv_def new_CollatzCalculator_def lru_ok_def keys_agree_new entries_valid_def)
     (simp add: new_LRUCache_def size_lru_def or_default_def)

lemma calc_inv_calculateSequence:
  assumes inv: "calc_inv c" and run: "calculateSequence f n uc c = Some (out, c')"
  shows "calc_inv c'"
proof (cases "n \<le> 0")
  case True
  with run inv show ?thesis by (simp add: calculateSequence_def)
next
  case False
  show ?thesis
  proof (cases rule: lookup_cases [of uc c n])
    case (hit e)
    with run False have c': "c' = c\<lparr>calc_cache := updateUsage (calc_cache c) n\<rparr>"
      by (simp add: calculateSequence_def)
    from hit have "n \<in> fst ` set (cache (calc_cache c))" by force
    with inv have "lru_ok (updateUsage (calc_cache c) n)"
      by (simp add: calc_inv_def lru_ok_updateUsage)
    with inv c' show ?thesis by (simp add: calc_inv_def entries_valid_def updateUsage_def)
  next
    case miss
    with run False have loop: "calculateSequence_loop f uc n n 0 [n] c = Some (out, c')"
      by (simp add: calculateSequence_def)
    from inv have ok: "lru_ok (calc_cache c')"
      using loop_lru_ok [OF loop] by (simp add: calc_inv_def)
    have "valid_entry k e" if mem: "(k, e) \<in> set (cache (calc_cache c'))" for k e
    proof (cases "(k, e) \<in> set (cache (calc_cache c))")
      case True
      with inv show ?thesis by (auto simp: calc_inv_def entries_valid_def)
    next
      case False
      with mem loop_entries [OF loop] have new: "k = n" "out = Inr e" "\<not> cacheHit e" by auto
      from loop new(2) have "calculateSequence_loop f uc n n 0 [n] c = Some (Inr e, c')" by simp
      from cached_nohit [OF this new(3), of n c]
      obtain d' where "calculateSequence_loop f False n n 0 [n] c = Some (Inr e, d')" by blast
      with \<open>\<not> n \<le> 0\<close> have "calculateSequence f n False c = Some (Inr e, d')"
        by (simp add: calculateSequence_False)
      with new(1) show ?thesis by (auto simp: valid_entry_def)
    qed
    with ok show ?thesis by (auto simp: calc_inv_def entries_valid_def)
  qed
qed

lemma calc_inv_memoryPressure: "calc_inv c \<Longrightarrow> calc_inv (snd (memoryPressure i c))"
  using memoryPressure_fields(1) [of i c "fst (memoryPressure i c)" "snd (memoryPressure i c)"]
  by (simp add: calc_inv_def entries_valid_def)

lemma calc_inv_processBatch_loop:
  assumes run: "processBatch_loop f i end' uc acc c = Some y"
  shows "calc_inv c \<longrightarrow> calc_inv (snd (snd y))"
proof (rule processBatch_loop.raw_induct
    [where P = "\<lambda>f i end' uc acc c y. calc_inv c \<longrightarrow> calc_inv (snd (snd y))", OF _ run],
    goal_cases)
  case (1 self f i end' uc acc c y)
  show ?case
  proof
    assume inv: "calc_inv c"
    let ?c1 = "snd (memoryPressure i c)"
    have inv1: "calc_inv ?c1" using inv by (rule calc_inv_memoryPressure)
    show "calc_inv (snd (snd y))"
    proof (cases "i \<le> end'")
      case False
      with 1(2) inv show ?thesis by auto
    next
      case True
      show ?thesis
      proof (cases "calculateSequence f i uc ?c1")
        case None
        with True 1(2) show ?thesis by simp
      next
        case (Some a)
        then obtain out c2 where a: "calculateSequence f i uc ?c1 = Some (out, c2)"
          by (cases a) auto
        from inv1 a have inv2: "calc_inv c2" by (rule calc_inv_calculateSequence)
        show ?thesis
        proof (cases out)
          case (Inl e)
          with a True 1(2) inv2 show ?thesis by auto
        next
          case (Inr r)
          with a True 1(2)
          have "self f (roundDouble (i + 1)) end' uc (acc @ [entry i r]) c2 = Some y" by simp
          from 1(1) [OF this] inv2 show ?thesis by simp
        qed
      qed
    qed
  qed
qed

lemma reachable_inv: "reachable c \<Longrightarrow> calc_inv c"
proof (induction rule: reachable.induct)
  case (fresh config now rs)
  show ?case by (rule calc_inv_fresh)
next
  case (calc c fuel n useCache out c')
  then show ?case by (auto intro: calc_inv_calculateSequence)
next
  case (batch c fuel start end' useCache res logged c')
  then show ?case using calc_inv_processBatch_loop [of fuel start end' useCache "[]" c]
    by (simp add: processBatch_def)
next
  case (cleared c)
  then show ?case by (simp add: calc_inv_def lru_ok_clear entries_valid_def) (simp add: clear_def)
next
  case (readings c rs)
  then show ?case by (simp add: calc_inv_def entries_valid_def)
qed


lemma calculateSequence_fuel_mono:
  "calculateSequence f n uc c = Some y \<Longrightarrow> calculateSequence (f + k) n uc c = Some y"
  by (auto simp: calculateSequence_def split: if_splits prod.splits option.splits
      intro: fuel_mono)

lemmas run_defs = calculateSequence_def lookup_def get_def new_CollatzCalculator_def
  new_LRUCache_def new_MemoryManager_def or_default_def loop_body_def clearOnPressure_def
  memoryPressure_def nextNum_def safeMultiply_def isSafeInteger_def MAX_SAFE_INTEGER_def
  finish_def set_lru_def updateUsage_def evictLeastUsed_def clear_def size_lru_def
  checkMemory_with_def Let_def

lemma loop_unfold:
  "calculateSequence_loop f uc n cur s sq c =
     (if cur = 1 then Some (finish uc n s sq c)
      else if f = 0 then None
      else (case loop_body uc cur s sq c of
              Inl exit \<Rightarrow> Some exit
            | Inr (cur', s', sq', c') \<Rightarrow> calculateSequence_loop (f - 1) uc n cur' s' sq' c'))"
  by (cases f) (auto split: sum.splits)


subsection \<open>Concrete runs\<close>

text \<open>
  A calculator built with the default options, and the same calculator after
  \<open>calculateSequence(2, true)\<close> has stored the trajectory of 2.
\<close>

lemma run_2_cached:
  "calculateSequence 1 2 True
     (new_CollatzCalculator \<lparr>cacheSize = 0, memoryThreshold = 0, cfg_batchSize = 0,
        cfg_memoryCheckFrequency = 0\<rparr> 0 [])
   = Some (Inr \<lparr>steps = 1, sequence = [2, 1], cacheHit = False\<rparr>,
       (new_CollatzCalculator \<lparr>cacheSize = 0, memoryThreshold = 0, cfg_batchSize = 0,
        cfg_memoryCheckFrequency = 0\<rparr> 0 [])
       \<lparr>calc_cache := \<lparr>maxSize = 40000,
           cache = [(2, \<lparr>steps = 1, sequence = [2, 1], cacheHit = False\<rparr>)],
           usage = [(2, 1)]\<rparr>\<rparr>)"
  by (simp add: run_defs loop_unfold)

lemma reachable_after_2:
  "reachable ((new_CollatzCalculator \<lparr>cacheSize = 0, memoryThreshold = 0, cfg_batchSize = 0,
        cfg_memoryCheckFrequency = 0\<rparr> 0 [])
       \<lparr>calc_cache := \<lparr>maxSize = 40000,
           cache = [(2, \<lparr>steps = 1, sequence = [2, 1], cacheHit = False\<rparr>)],
           usage = [(2, 1)]\<rparr>\<rparr>)"
  using reachable.calc [OF reachable.fresh run_2_cached] .

lemma run_4_cached:
  "calculateSequence 2 4 True
     ((new_CollatzCalculator \<lparr>cacheSize = 0, memoryThreshold = 0, cfg_batchSize = 0,
        cfg_memoryCheckFrequency = 0\<rparr> 0 [])
       \<lparr>calc_cache := \<lparr>maxSize = 40000,
           cache = [(2, \<lparr>steps = 1, sequence = [2, 1], cacheHit = False\<rparr>)],
           usage = [(2, 1)]\<rparr>\<rparr>)
   = Some (Inr \<lparr>steps = 2, sequence = [4, 2, 1], cacheHit = True\<rparr>,
       (new_CollatzCalculator \<lparr>cacheSize = 0, memoryThreshold = 0, cfg_batchSize = 0,
        cfg_memoryCheckFrequency = 0\<rparr> 0 [])
       \<lparr>calc_cache := \<lparr>maxSize = 40000,
           cache = [(2, \<lparr>steps = 1, sequence = [2, 1], cacheHit = False\<rparr>)],
           usage = [(2, 2)]\<rparr>\<rparr>)"
  by (simp add: run_defs loop_unfold)

lemma run_4_uncached:
  "calculateSequence 2 4 False
     ((new_CollatzCalculator \<lparr>cacheSize = 0, memoryThreshold = 0, cfg_batchSize = 0,
        cfg_memoryCheckFrequency = 0\<rparr> 0 [])
       \<lparr>calc_cache := \<lparr>maxSize = 40000,
           cache = [(2, \<lparr>steps = 1, sequence = [2, 1], cacheHit = False\<rparr>)],
           usage = [(2, 1)]\<rparr>\<rparr>)
   = Some (Inr \<lparr>steps = 2, sequence = [4, 2, 1], cacheHit = False\<rparr>,
       (new_CollatzCalculator \<lparr>cacheSize = 0, memoryThreshold = 0, cfg_batchSize = 0,
        cfg_memoryCheckFrequency = 0\<rparr> 0 [])
       \<lparr>calc_cache := \<lparr>maxSize = 40000,
           cache = [(2, \<lparr>steps = 1, sequence = [2, 1], cacheHit = False\<rparr>)],
           usage = [(2, 1)]\<rparr>\<rparr>)"
  by (simp add: run_defs loop_unfold)

section \<open>The trajectory returned by calculateSequence\<close>

text \<open>
  C1.  In every calculator that the engine's own operations can produce, for every positive
  \<open>n\<close> and either value of \<open>useCache\<close>: when \<open>calculateSequence(n, useCache)\<close> returns a
  result, its \<open>sequence\<close> starts with \<open>n\<close>, ends with 1 and has \<open>steps + 1\<close> elements.
\<close>

theorem C1_trajectory_shape:
  assumes "reachable c" and "0 < n"
    and "calculateSequence fuel n useCache c = Some (Inr r, c')"
  shows "sequence r \<noteq> [] \<and> sequence r ! 0 = n \<and> last (sequence r) = 1
         \<and> length (sequence r) = steps r + 1"
proof -
  from assms(1) have ev: "entries_valid c" by (auto dest: reachable_inv simp: calc_inv_def)
  have "\<exists>t. sequence r = n # t \<and> steps r = length t \<and> last (n # t) = 1"
  proof (cases rule: lookup_cases [of useCache c n])
    case miss
    with assms(2,3) have "calculateSequence_loop fuel useCache n n 0 [n] c = Some (Inr r, c')"
      by (simp add: calculateSequence_def)
    from loop_wellformed [OF ev this] show ?thesis by simp
  next
    case (hit e)
    with assms(2,3) have r: "r = e\<lparr>cacheHit := True\<rparr>" by (simp add: calculateSequence_def)
    from hit ev have "valid_entry n e" by (auto simp: entries_valid_def)
    then obtain t where "e = \<lparr>steps = length t, sequence = n # t, cacheHit = False\<rparr>"
      "last (n # t) = 1" using valid_entryD by blast
    with r show ?thesis by simp
  qed
  then obtain t where "sequence r = n # t" "steps r = length t" "last (n # t) = 1" by blast
  then show ?thesis by simp
qed

theorem C1_trajectory_shape_witness:
  "reachable ((new_CollatzCalculator \<lparr>cacheSize = 0, memoryThreshold = 0, cfg_batchSize = 0,
        cfg_memoryCheckFrequency = 0\<rparr> 0 [])
       \<lparr>calc_cache := \<lparr>maxSize = 40000,
           cache = [(2, \<lparr>steps = 1, sequence = [2, 1], cacheHit = False\<rparr>)],
           usage = [(2, 1)]\<rparr>\<rparr>)
   \<and> (0::int) < 4
   \<and> calculateSequence 2 4 True
     ((new_CollatzCalculator \<lparr>cacheSize = 0, memoryThreshold = 0, cfg_batchSize = 0,
        cfg_memoryCheckFrequency = 0\<rparr> 0 [])
       \<lparr>calc_cache := \<lparr>maxSize = 40000,
           cache = [(2, \<lparr>steps = 1, sequence = [2, 1], cacheHit = False\<rparr>)],
           usage = [(2, 1)]\<rparr>\<rparr>)
     = Some (Inr \<lparr>steps = 2, sequence = [4, 2, 1], cacheHit = True\<rparr>,
       (new_CollatzCalculator \<lparr>cacheSize = 0, memoryThreshold = 0, cfg_batchSize = 0,
        cfg_memoryCheckFrequency = 0\<rparr> 0 [])
       \<lparr>calc_cache := \<lparr>maxSize = 40000,
           cache = [(2, \<lparr>steps = 1, sequence = [2, 1], cacheHit = False\<rparr>)],
           usage = [(2, 2)]\<rparr>\<rparr>)
   \<and> sequence \<lparr>steps = 2, sequence = [4, 2, 1], cacheHit = True\<rparr> \<noteq> []
   \<and> sequence \<lparr>steps = 2, sequence = [4, 2, 1], cacheHit = True\<rparr> ! 0 = 4
   \<and> last (sequence \<lparr>steps = 2, sequence = [4, 2, 1], cacheHit = True\<rparr>) = 1
   \<and> length (sequence \<lparr>steps = 2, sequence = [4, 2, 1], cacheHit = True\<rparr>)
       = steps \<lparr>steps = 2, sequence = [4, 2, 1], cacheHit = True\<rparr> + 1"
  using C1_trajectory_shape [OF reachable_after_2 _ run_4_cached] reachable_after_2 run_4_cached
  by simp

text \<open>
  C2.  In every calculator that the engine's own operations can produce, for every positive
  \<open>n\<close> whose uncached computation returns a result: the cached computation returns a result
  too (within the same fuel), every result the cached computation returns has the same
  \<open>steps\<close> and \<open>sequence\<close>, and every cache entry is exactly what an uncached run from its
  key returns.  This holds whatever the memory monitor reports, in particular when it
  reports OK throughout.
\<close>

theorem C2_cached_equals_uncached:
  assumes "reachable c" and "0 < n"
    and "calculateSequence fuel n False c = Some (Inr r, c1)"
  shows "(\<exists>r' c2. calculateSequence fuel n True c = Some (Inr r', c2)
            \<and> steps r' = steps r \<and> sequence r' = sequence r)
       \<and> (\<forall>fuel' r' c2. calculateSequence fuel' n True c = Some (Inr r', c2)
            \<longrightarrow> steps r' = steps r \<and> sequence r' = sequence r)
       \<and> (\<forall>(k, e) \<in> set (cache (calc_cache c)).
            \<exists>fuel' c'. calculateSequence fuel' k False c = Some (Inr e, c'))"
proof -
  from assms(1) have ev: "entries_valid c" and ok: "lru_ok (calc_cache c)"
    by (auto dest: reachable_inv simp: calc_inv_def)
  from assms(2,3) have loop: "calculateSequence_loop fuel False n n 0 [n] c = Some (Inr r, c1)"
    by (simp add: calculateSequence_False)
  have first: "\<exists>r' c2. calculateSequence fuel n True c = Some (Inr r', c2)
            \<and> steps r' = steps r \<and> sequence r' = sequence r"
  proof (cases rule: lookup_cases [of True c n])
    case miss
    with assms(2) cached_sim [OF loop ev ok, of n] show ?thesis
      by (simp add: calculateSequence_def)
  next
    case (hit e)
    with ev have "valid_entry n e" by (auto simp: entries_valid_def)
    from uncached_agree [OF loop this] obtain t
      where "steps r = steps e" "sequence r = [n] @ tl (sequence e)" by simp
    moreover from \<open>valid_entry n e\<close> obtain t where "sequence e = n # t"
      using valid_entryD by fastforce
    ultimately show ?thesis using hit assms(2) by (simp add: calculateSequence_def)
  qed
  have second: "steps r' = steps r \<and> sequence r' = sequence r"
    if "calculateSequence fuel' n True c = Some (Inr r', c2)" for fuel' r' c2
  proof -
    from first obtain r'' c2' where "calculateSequence fuel n True c = Some (Inr r'', c2')"
      "steps r'' = steps r" "sequence r'' = sequence r" by blast
    with calculateSequence_fuel_mono [OF that, of fuel]
      calculateSequence_fuel_mono [OF this(1), of fuel']
    show ?thesis by (simp add: add.commute)
  qed
  have third: "\<exists>fuel' c'. calculateSequence fuel' k False c = Some (Inr e, c')"
    if "(k, e) \<in> set (cache (calc_cache c))" for k e
  proof -
    from that ev have "valid_entry k e" by (auto simp: entries_valid_def)
    then obtain f where "0 < k"
      "\<forall>n c. \<exists>c'. calculateSequence_loop f False n k 0 [k] c = Some (Inr e, c')"
      using valid_entryD by blast
    then show ?thesis by (simp add: calculateSequence_False) blast
  qed
  from first second third show ?thesis by blast
qed

theorem C2_cached_equals_uncached_witness:
  "reachable ((new_CollatzCalculator \<lparr>cacheSize = 0, memoryThreshold = 0, cfg_batchSize = 0,
        cfg_memoryCheckFrequency = 0\<rparr> 0 [])
       \<lparr>calc_cache := \<lparr>maxSize = 40000,
           cache = [(2, \<lparr>steps = 1, sequence = [2, 1], cacheHit = False\<rparr>)],
           usage = [(2, 1)]\<rparr>\<rparr>)
   \<and> (0::int) < 4
   \<and> calculateSequence 2 4 False
     ((new_CollatzCalculator \<lparr>cacheSize = 0, memoryThreshold = 0, cfg_batchSize = 0,
        cfg_memoryCheckFrequency = 0\<rparr> 0 [])
       \<lparr>calc_cache := \<lparr>maxSize = 40000,
           cache = [(2, \<lparr>steps = 1, sequence = [2, 1], cacheHit = False\<rparr>)],
           usage = [(2, 1)]\<rparr>\<rparr>)
     = Some (Inr \<lparr>steps = 2, sequence = [4, 2, 1], cacheHit = False\<rparr>,
       (new_CollatzCalculator \<lparr>cacheSize = 0, memoryThreshold = 0, cfg_batchSize = 0,
        cfg_memoryCheckFrequency = 0\<rparr> 0 [])
       \<lparr>calc_cache := \<lparr>maxSize = 40000,
           cache = [(2, \<lparr>steps = 1, sequence = [2, 1], cacheHit = False\<rparr>)],
           usage = [(2, 1)]\<rparr>\<rparr>)
   \<and> (\<exists>r' c2. calculateSequence 2 4 True
     ((new_CollatzCalculator \<lparr>cacheSize = 0, memoryThreshold = 0, cfg_batchSize = 0,
        cfg_memoryCheckFrequency = 0\<rparr> 0 [])
       \<lparr>calc_cache := \<lparr>maxSize = 40000,
           cache = [(2, \<lparr>steps = 1, sequence = [2, 1], cacheHit = False\<rparr>)],
           usage = [(2, 1)]\<rparr>\<rparr>) = Some (Inr r', c2)
        \<and> steps r' = 2 \<and> sequence r' = [4, 2, 1])
   \<and> (\<exists>fuel' c'. calculateSequence fuel' 2 False
     ((new_CollatzCalculator \<lparr>cacheSize = 0, memoryThreshold = 0, cfg_batchSize = 0,
        cfg_memoryCheckFrequency = 0\<rparr> 0 [])
       \<lparr>calc_cache := \<lparr>maxSize = 40000,
           cache = [(2, \<lparr>steps = 1, sequence = [2, 1], cacheHit = False\<rparr>)],
           usage = [(2, 1)]\<rparr>\<rparr>)
       = Some (Inr \<lparr>steps = 1, sequence = [2, 1], cacheHit = False\<rparr>, c'))"
  using C2_cached_equals_uncached [OF reachable_after_2 _ run_4_uncached]
    reachable_after_2 run_4_uncached
  by simp

section \<open>The cache under an uncached run\<close>

lemma clear_clear: "clear (clear lc) = clear lc"
  by (simp add: clear_def)

lemma clearOnPressure_monitor_ok:
  assumes "monitor_ok (memoryManager c) (env c)"
  shows "calc_cache (clearOnPressure s c) = calc_cache c"
    and "monitor_ok (memoryManager (clearOnPressure s c)) (env (clearOnPressure s c))"
proof -
  show "calc_cache (clearOnPressure s c) = calc_cache c"
    using assms
    by (cases "env c")
       (auto simp: clearOnPressure_def memoryPressure_def split: prod.splits if_splits)
  show "monitor_ok (memoryManager (clearOnPressure s c)) (env (clearOnPressure s c))"
    using assms
    by (cases "env c")
       (auto simp: clearOnPressure_def memoryPressure_def split: prod.splits if_splits)
qed

lemma uncached_frame:
  assumes "calculateSequence_loop f False n cur s sq c = Some (out, c')"
  shows "(calc_cache c' = calc_cache c \<or> calc_cache c' = clear (calc_cache c))
       \<and> (monitor_ok (memoryManager c) (env c) \<longrightarrow> calc_cache c' = calc_cache c)"
  using assms
proof (induction rule: loop_induct)
  case (finish f s sq c)
  then show ?case by (simp add: finish_False)
next
  case (hit f cur s sq c e)
  then show ?case by (auto dest: lookup_Some)
next
  case (fail f cur s sq c er)
  then show ?case
    using clearOnPressure_monitor_ok(1) [of c s]
    by (cases rule: clearOnPressure_cases [of s c]) auto
next
  case (limit f cur s sq c nxt)
  then show ?case
    using clearOnPressure_monitor_ok(1) [of c s]
    by (cases rule: clearOnPressure_cases [of s c]) auto
next
  case (step f cur s sq c nxt)
  then show ?case
    using clearOnPressure_monitor_ok [of c s]
    by (cases rule: clearOnPressure_cases [of s c]) (auto simp: clear_clear)
qed


lemma uncached_iteration_frame:
  "iteration k False cur0 s0 sq0 c0 = Some (cur, s, sq, ck) \<Longrightarrow>
   calc_cache ck = calc_cache c0 \<or> calc_cache ck = clear (calc_cache c0)"
proof (induction k arbitrary: cur0 s0 sq0 c0)
  case 0
  then show ?case by (simp split: if_splits)
next
  case (Suc k)
  from Suc.prems have ne: "cur0 \<noteq> 1" by (simp split: if_splits)
  with Suc.prems obtain cur1 s1 sq1 c1 where
    body: "loop_body False cur0 s0 sq0 c0 = Inr (cur1, s1, sq1, c1)"
    and it: "iteration k False cur1 s1 sq1 c1 = Some (cur, s, sq, ck)"
    by (auto split: sum.splits)
  from body have c1: "c1 = clearOnPressure s0 c0"
    by (cases rule: loop_body_cases [of False s0 c0 cur0 sq0]) auto
  from Suc.IH [OF it] show ?case
    by (cases rule: clearOnPressure_cases [of s0 c0]) (auto simp: c1 clear_clear)
qed

text \<open>
  C10.  During and after \<open>calculateSequence(n, false)\<close>, whatever it returns or throws, the
  cache (its entries, its usage counters, its capacity) is either exactly as it was before
  the call or that cache emptied by \<open>clear()\<close>: at the start of every pass through the loop,
  and when the call ends.  When the memory monitor reports OK throughout, the cache after
  the call is exactly as it was.
\<close>

theorem C10_uncached_run_leaves_cache:
  "(calculateSequence_iteration k n False c = Some (cur, s, sq, ck) \<longrightarrow>
      calc_cache ck = calc_cache c \<or> calc_cache ck = clear (calc_cache c))
   \<and> (calculateSequence fuel n False c = Some (out, c') \<longrightarrow>
      (calc_cache c' = calc_cache c \<or> calc_cache c' = clear (calc_cache c))
      \<and> (monitor_ok (memoryManager c) (env c) \<longrightarrow> calc_cache c' = calc_cache c))"
proof (intro conjI impI)
  assume "calculateSequence_iteration k n False c = Some (cur, s, sq, ck)"
  then have "iteration k False n 0 [n] c = Some (cur, s, sq, ck)"
    by (simp add: calculateSequence_iteration_def lookup_False split: if_splits)
  then show "calc_cache ck = calc_cache c \<or> calc_cache ck = clear (calc_cache c)"
    by (rule uncached_iteration_frame)
next
  assume run: "calculateSequence fuel n False c = Some (out, c')"
  have both: "(calc_cache c' = calc_cache c \<or> calc_cache c' = clear (calc_cache c))
       \<and> (monitor_ok (memoryManager c) (env c) \<longrightarrow> calc_cache c' = calc_cache c)"
  proof (cases "n \<le> 0")
    case True
    with run show ?thesis by (simp add: calculateSequence_False)
  next
    case False
    with run have "calculateSequence_loop fuel False n n 0 [n] c = Some (out, c')"
      by (simp add: calculateSequence_False)
    then show ?thesis by (rule uncached_frame)
  qed
  from both show "calc_cache c' = calc_cache c \<or> calc_cache c' = clear (calc_cache c)" ..
  from both show "calc_cache c' = calc_cache c" if "monitor_ok (memoryManager c) (env c)"
    using that by blast
qed

theorem C10_uncached_run_leaves_cache_witness:
  "calculateSequence_iteration 1 4 False
     ((new_CollatzCalculator \<lparr>cacheSize = 0, memoryThreshold = 0, cfg_batchSize = 0,
        cfg_memoryCheckFrequency = 0\<rparr> 0 [(500, 1000000000)])
       \<lparr>calc_cache := \<lparr>maxSize = 40000,
           cache = [(2, \<lparr>steps = 1, sequence = [2, 1], cacheHit = False\<rparr>)],
           usage = [(2, 1)]\<rparr>\<rparr>)
     = Some (2, 1, [4, 2], (new_CollatzCalculator \<lparr>cacheSize = 0, memoryThreshold = 0, cfg_batchSize = 0,
        cfg_memoryCheckFrequency = 0\<rparr> 0 [])
       \<lparr>calc_cache := \<lparr>maxSize = 40000,
           cache = [(2, \<lparr>steps = 1, sequence = [2, 1], cacheHit = False\<rparr>)],
           usage = [(2, 1)]\<rparr>\<rparr>)
   \<and> calculateSequence 2 4 False
     ((new_CollatzCalculator \<lparr>cacheSize = 0, memoryThreshold = 0, cfg_batchSize = 0,
        cfg_memoryCheckFrequency = 0\<rparr> 0 [(500, 1000000000)])
       \<lparr>calc_cache := \<lparr>maxSize = 40000,
           cache = [(2, \<lparr>steps = 1, sequence = [2, 1], cacheHit = False\<rparr>)],
           usage = [(2, 1)]\<rparr>\<rparr>)
     = Some (Inr \<lparr>steps = 2, sequence = [4, 2, 1], cacheHit = False\<rparr>,
         (new_CollatzCalculator \<lparr>cacheSize = 0, memoryThreshold = 0, cfg_batchSize = 0,
        cfg_memoryCheckFrequency = 0\<rparr> 0 [])
       \<lparr>calc_cache := \<lparr>maxSize = 40000,
           cache = [(2, \<lparr>steps = 1, sequence = [2, 1], cacheHit = False\<rparr>)],
           usage = [(2, 1)]\<rparr>\<rparr>)
   \<and> monitor_ok
        (memoryManager ((new_CollatzCalculator \<lparr>cacheSize = 0, memoryThreshold = 0, cfg_batchSize = 0,
        cfg_memoryCheckFrequency = 0\<rparr> 0 [(500, 1000000000)])
       \<lparr>calc_cache := \<lparr>maxSize = 40000,
           cache = [(2, \<lparr>steps = 1, sequence = [2, 1], cacheHit = False\<rparr>)],
           usage = [(2, 1)]\<rparr>\<rparr>))
        (env ((new_CollatzCalculator \<lparr>cacheSize = 0, memoryThreshold = 0, cfg_batchSize = 0,
        cfg_memoryCheckFrequency = 0\<rparr> 0 [(500, 1000000000)])
       \<lparr>calc_cache := \<lparr>maxSize = 40000,
           cache = [(2, \<lparr>steps = 1, sequence = [2, 1], cacheHit = False\<rparr>)],
           usage = [(2, 1)]\<rparr>\<rparr>))
   \<and> calc_cache ((new_CollatzCalculator \<lparr>cacheSize = 0, memoryThreshold = 0, cfg_batchSize = 0,
        cfg_memoryCheckFrequency = 0\<rparr> 0 [])
       \<lparr>calc_cache := \<lparr>maxSize = 40000,
           cache = [(2, \<lparr>steps = 1, sequence = [2, 1], cacheHit = False\<rparr>)],
           usage = [(2, 1)]\<rparr>\<rparr>)
     = calc_cache ((new_CollatzCalculator \<lparr>cacheSize = 0, memoryThreshold = 0, cfg_batchSize = 0,
        cfg_memoryCheckFrequency = 0\<rparr> 0 [(500, 1000000000)])
       \<lparr>calc_cache := \<lparr>maxSize = 40000,
           cache = [(2, \<lparr>steps = 1, sequence = [2, 1], cacheHit = False\<rparr>)],
           usage = [(2, 1)]\<rparr>\<rparr>)"
proof -
  have it: "calculateSequence_iteration 1 4 False
     ((new_CollatzCalculator \<lparr>cacheSize = 0, memoryThreshold = 0, cfg_batchSize = 0,
        cfg_memoryCheckFrequency = 0\<rparr> 0 [(500, 1000000000)])
       \<lparr>calc_cache := \<lparr>maxSize = 40000,
           cache = [(2, \<lparr>steps = 1, sequence = [2, 1], cacheHit = False\<rparr>)],
           usage = [(2, 1)]\<rparr>\<rparr>)
     = Some (2, 1, [4, 2], (new_CollatzCalculator \<lparr>cacheSize = 0, memoryThreshold = 0, cfg_batchSize = 0,
        cfg_memoryCheckFrequency = 0\<rparr> 0 [])
       \<lparr>calc_cache := \<lparr>maxSize = 40000,
           cache = [(2, \<lparr>steps = 1, sequence = [2, 1], cacheHit = False\<rparr>)],
           usage = [(2, 1)]\<rparr>\<rparr>)"
    by (simp add: calculateSequence_iteration_def run_defs)
  have run: "calculateSequence 2 4 False
     ((new_CollatzCalculator \<lparr>cacheSize = 0, memoryThreshold = 0, cfg_batchSize = 0,
        cfg_memoryCheckFrequency = 0\<rparr> 0 [(500, 1000000000)])
       \<lparr>calc_cache := \<lparr>maxSize = 40000,
           cache = [(2, \<lparr>steps = 1, sequence = [2, 1], cacheHit = False\<rparr>)],
           usage = [(2, 1)]\<rparr>\<rparr>)
     = Some (Inr \<lparr>steps = 2, sequence = [4, 2, 1], cacheHit = False\<rparr>,
         (new_CollatzCalculator \<lparr>cacheSize = 0, memoryThreshold = 0, cfg_batchSize = 0,
        cfg_memoryCheckFrequency = 0\<rparr> 0 [])
       \<lparr>calc_cache := \<lparr>maxSize = 40000,
           cache = [(2, \<lparr>steps = 1, sequence = [2, 1], cacheHit = False\<rparr>)],
           usage = [(2, 1)]\<rparr>\<rparr>)"
    by (simp add: run_defs loop_unfold)
  have ok: "monitor_ok
        (memoryManager ((new_CollatzCalculator \<lparr>cacheSize = 0, memoryThreshold = 0, cfg_batchSize = 0,
        cfg_memoryCheckFrequency = 0\<rparr> 0 [(500, 1000000000)])
       \<lparr>calc_cache := \<lparr>maxSize = 40000,
           cache = [(2, \<lparr>steps = 1, sequence = [2, 1], cacheHit = False\<rparr>)],
           usage = [(2, 1)]\<rparr>\<rparr>))
        (env ((new_CollatzCalculator \<lparr>cacheSize = 0, memoryThreshold = 0, cfg_batchSize = 0,
        cfg_memoryCheckFrequency = 0\<rparr> 0 [(500, 1000000000)])
       \<lparr>calc_cache := \<lparr>maxSize = 40000,
           cache = [(2, \<lparr>steps = 1, sequence = [2, 1], cacheHit = False\<rparr>)],
           usage = [(2, 1)]\<rparr>\<rparr>))"
    by (simp add: run_defs)
  from C10_uncached_run_leaves_cache
    [of 1 4 "(new_CollatzCalculator \<lparr>cacheSize = 0, memoryThreshold = 0, cfg_batchSize = 0,
        cfg_memoryCheckFrequency = 0\<rparr> 0 [(500, 1000000000)])
       \<lparr>calc_cache := \<lparr>maxSize = 40000,
           cache = [(2, \<lparr>steps = 1, sequence = [2, 1], cacheHit = False\<rparr>)],
           usage = [(2, 1)]\<rparr>\<rparr>"
       2 1 "[4, 2]" "(new_CollatzCalculator \<lparr>cacheSize = 0, memoryThreshold = 0, cfg_batchSize = 0,
        cfg_memoryCheckFrequency = 0\<rparr> 0 [])
       \<lparr>calc_cache := \<lparr>maxSize = 40000,
           cache = [(2, \<lparr>steps = 1, sequence = [2, 1], cacheHit = False\<rparr>)],
           usage = [(2, 1)]\<rparr>\<rparr>"
       2 "Inr \<lparr>steps = 2, sequence = [4, 2, 1], cacheHit = False\<rparr>"
       "(new_CollatzCalculator \<lparr>cacheSize = 0, memoryThreshold = 0, cfg_batchSize = 0,
        cfg_memoryCheckFrequency = 0\<rparr> 0 [])
       \<lparr>calc_cache := \<lparr>maxSize = 40000,
           cache = [(2, \<lparr>steps = 1, sequence = [2, 1], cacheHit = False\<rparr>)],
           usage = [(2, 1)]\<rparr>\<rparr>"]
    it run ok
  show ?thesis by blast
qed

section \<open>Overflow detection\<close>

lemma iteration_loop:
  "iteration k uc cur0 s0 sq0 c0 = Some (cur, s, sq, ck) \<Longrightarrow>
   calculateSequence_loop (k + j) uc n cur0 s0 sq0 c0 = calculateSequence_loop j uc n cur s sq ck"
proof (induction k arbitrary: cur0 s0 sq0 c0)
  case 0
  then show ?case by (simp split: if_splits)
next
  case (Suc k)
  from Suc.prems have ne: "cur0 \<noteq> 1" by (simp split: if_splits)
  with Suc.prems obtain cur1 s1 sq1 c1 where
    body: "loop_body uc cur0 s0 sq0 c0 = Inr (cur1, s1, sq1, c1)"
    and it: "iteration k uc cur1 s1 sq1 c1 = Some (cur, s, sq, ck)"
    by (auto split: sum.splits)
  from Suc.IH [OF it] ne body show ?case by (simp add: loop_Suc)
qed

lemma iteration_inv:
  "iteration k uc cur0 s0 sq0 c0 = Some (cur, s, sq, ck) \<Longrightarrow>
   (entries_valid c0 \<longrightarrow> entries_valid ck)
   \<and> (monitor_ok (memoryManager c0) (env c0) \<longrightarrow>
        monitor_ok (memoryManager ck) (env ck) \<and> calc_cache ck = calc_cache c0)"
proof (induction k arbitrary: cur0 s0 sq0 c0)
  case 0
  then show ?case by (simp split: if_splits)
next
  case (Suc k)
  from Suc.prems have ne: "cur0 \<noteq> 1" by (simp split: if_splits)
  with Suc.prems obtain cur1 s1 sq1 c1 where
    body: "loop_body uc cur0 s0 sq0 c0 = Inr (cur1, s1, sq1, c1)"
    and it: "iteration k uc cur1 s1 sq1 c1 = Some (cur, s, sq, ck)"
    by (auto split: sum.splits)
  from body have c1: "c1 = clearOnPressure s0 c0"
    by (cases rule: loop_body_cases [of uc s0 c0 cur0 sq0]) auto
  from Suc.IH [OF it] show ?case
    using entries_valid_clearOnPressure [of c0 s0] clearOnPressure_monitor_ok [of c0 s0]
    by (auto simp: c1)
qed

lemma nextNum_overflow:
  "odd cur \<Longrightarrow> \<not> isSafeInteger (3 * cur) \<Longrightarrow> nextNum cur = Inl OverflowError"
  by (simp add: nextNum_def safeMultiply_def odd_iff_mod_2_eq_one mult.commute)

lemma overflow_now:
  assumes ev: "entries_valid c" and odd: "odd cur" and big: "\<not> isSafeInteger (3 * cur)"
  shows "loop_body uc cur s sq c = Inl (Inl OverflowError, clearOnPressure s c)"
    and "cur \<noteq> 1"
proof -
  from big show ne: "cur \<noteq> 1" by (auto simp: isSafeInteger_def MAX_SAFE_INTEGER_def)
  from odd big have nn: "nextNum cur = Inl OverflowError" by (rule nextNum_overflow)
  have ev2: "entries_valid (clearOnPressure s c)"
    using ev by (rule entries_valid_clearOnPressure)
  show "loop_body uc cur s sq c = Inl (Inl OverflowError, clearOnPressure s c)"
  proof (cases rule: lookup_cases [of uc "clearOnPressure s c" cur])
    case miss
    with nn show ?thesis by (simp add: loop_body_def)
  next
    case (hit e)
    with ev2 have "valid_entry cur e" by (auto simp: entries_valid_def)
    then obtain f where "\<forall>n c. \<exists>c'. calculateSequence_loop f False n cur 0 [cur] c = Some (Inr e, c')"
      using valid_entryD by blast
    then obtain c' where run: "calculateSequence_loop f False cur cur 0 [cur] c = Some (Inr e, c')"
      by blast
    have "loop_body False cur 0 [cur] c = Inl (Inl OverflowError, clearOnPressure 0 c)"
      using nn by (simp add: loop_body_def lookup_False)
    with run ne have False by (cases f) (simp_all add: loop_0 loop_Suc)
    then show ?thesis ..
  qed
qed


text \<open>
  C6.  In every calculator that the engine's own operations can produce: when a call
  \<open>calculateSequence(n, useCache)\<close> enters the loop body with an odd \<open>currentNum\<close> whose triple
  is not a safe integer, the call throws the overflow error (given fuel for that many
  passes); and when the memory monitor reports OK throughout, the cache after the throw is
  exactly the cache before the call.
\<close>

theorem C6_overflow_detected:
  assumes "reachable c"
    and "calculateSequence_iteration k n useCache c = Some (cur, s, sq, ck)"
    and "odd cur" and "\<not> isSafeInteger (3 * cur)" and "k < fuel"
  shows "\<exists>c'. calculateSequence fuel n useCache c = Some (Inl OverflowError, c')
           \<and> (monitor_ok (memoryManager c) (env c) \<longrightarrow> calc_cache c' = calc_cache c)"
proof -
  from assms(1) have ev: "entries_valid c" by (auto dest: reachable_inv simp: calc_inv_def)
  from assms(2) have pos: "\<not> n \<le> 0" by (simp add: calculateSequence_iteration_def split: if_splits)
  from assms(2) pos have miss: "lookup useCache c n = (None, c)"
    and it: "iteration k useCache n 0 [n] c = Some (cur, s, sq, ck)"
    by (cases rule: lookup_cases [of useCache c n];
        simp add: calculateSequence_iteration_def)+
  from iteration_inv [OF it] ev have evk: "entries_valid ck"
    and mon: "monitor_ok (memoryManager c) (env c) \<Longrightarrow>
        monitor_ok (memoryManager ck) (env ck) \<and> calc_cache ck = calc_cache c"
    by auto
  from assms(5) obtain j where fuel: "fuel = k + Suc j"
    by (metis add_Suc_right less_iff_Suc_add)
  from overflow_now(1) [OF evk assms(3,4), of useCache s sq] overflow_now(2) [OF evk assms(3,4)]
  have "calculateSequence_loop (Suc j) useCache n cur s sq ck
      = Some (Inl OverflowError, clearOnPressure s ck)"
    by (simp add: loop_Suc)
  with iteration_loop [OF it, of "Suc j" n] pos miss
  have run: "calculateSequence fuel n useCache c = Some (Inl OverflowError, clearOnPressure s ck)"
    by (simp add: calculateSequence_def fuel)
  moreover have "calc_cache (clearOnPressure s ck) = calc_cache c"
    if "monitor_ok (memoryManager c) (env c)"
    using mon [OF that] clearOnPressure_monitor_ok(1) [of ck s] by simp
  ultimately show ?thesis by blast
qed

theorem C6_overflow_detected_witness:
  "reachable ((new_CollatzCalculator \<lparr>cacheSize = 0, memoryThreshold = 0, cfg_batchSize = 0,
        cfg_memoryCheckFrequency = 0\<rparr> 0 [])
       \<lparr>calc_cache := \<lparr>maxSize = 40000,
           cache = [(2, \<lparr>steps = 1, sequence = [2, 1], cacheHit = False\<rparr>)],
           usage = [(2, 1)]\<rparr>\<rparr>)
   \<and> calculateSequence_iteration 1 6004799503160662 True
       ((new_CollatzCalculator \<lparr>cacheSize = 0, memoryThreshold = 0, cfg_batchSize = 0,
        cfg_memoryCheckFrequency = 0\<rparr> 0 [])
       \<lparr>calc_cache := \<lparr>maxSize = 40000,
           cache = [(2, \<lparr>steps = 1, sequence = [2, 1], cacheHit = False\<rparr>)],
           usage = [(2, 1)]\<rparr>\<rparr>)
     = Some (3002399751580331, 1, [6004799503160662, 3002399751580331],
         (new_CollatzCalculator \<lparr>cacheSize = 0, memoryThreshold = 0, cfg_batchSize = 0,
        cfg_memoryCheckFrequency = 0\<rparr> 0 [])
       \<lparr>calc_cache := \<lparr>maxSize = 40000,
           cache = [(2, \<lparr>steps = 1, sequence = [2, 1], cacheHit = False\<rparr>)],
           usage = [(2, 1)]\<rparr>\<rparr>)
   \<and> odd (3002399751580331 :: int) \<and> \<not> isSafeInteger (3 * 3002399751580331)
   \<and> (1::nat) < 2
   \<and> (\<exists>c'. calculateSequence 2 6004799503160662 True
         ((new_CollatzCalculator \<lparr>cacheSize = 0, memoryThreshold = 0, cfg_batchSize = 0,
        cfg_memoryCheckFrequency = 0\<rparr> 0 [])
       \<lparr>calc_cache := \<lparr>maxSize = 40000,
           cache = [(2, \<lparr>steps = 1, sequence = [2, 1], cacheHit = False\<rparr>)],
           usage = [(2, 1)]\<rparr>\<rparr>) = Some (Inl OverflowError, c')
        \<and> calc_cache c' = calc_cache ((new_CollatzCalculator \<lparr>cacheSize = 0, memoryThreshold = 0, cfg_batchSize = 0,
        cfg_memoryCheckFrequency = 0\<rparr> 0 [])
       \<lparr>calc_cache := \<lparr>maxSize = 40000,
           cache = [(2, \<lparr>steps = 1, sequence = [2, 1], cacheHit = False\<rparr>)],
           usage = [(2, 1)]\<rparr>\<rparr>))"
proof -
  have it: "calculateSequence_iteration 1 6004799503160662 True
       ((new_CollatzCalculator \<lparr>cacheSize = 0, memoryThreshold = 0, cfg_batchSize = 0,
        cfg_memoryCheckFrequency = 0\<rparr> 0 [])
       \<lparr>calc_cache := \<lparr>maxSize = 40000,
           cache = [(2, \<lparr>steps = 1, sequence = [2, 1], cacheHit = False\<rparr>)],
           usage = [(2, 1)]\<rparr>\<rparr>)
     = Some (3002399751580331, 1, [6004799503160662, 3002399751580331],
         (new_CollatzCalculator \<lparr>cacheSize = 0, memoryThreshold = 0, cfg_batchSize = 0,
        cfg_memoryCheckFrequency = 0\<rparr> 0 [])
       \<lparr>calc_cache := \<lparr>maxSize = 40000,
           cache = [(2, \<lparr>steps = 1, sequence = [2, 1], cacheHit = False\<rparr>)],
           usage = [(2, 1)]\<rparr>\<rparr>)"
    by (simp add: calculateSequence_iteration_def run_defs)
  have odd: "odd (3002399751580331 :: int)" by simp
  have big: "\<not> isSafeInteger (3 * 3002399751580331)"
    by (simp add: isSafeInteger_def MAX_SAFE_INTEGER_def)
  have fuel: "(1::nat) < 2" by simp
  have ok: "monitor_ok
        (memoryManager ((new_CollatzCalculator \<lparr>cacheSize = 0, memoryThreshold = 0, cfg_batchSize = 0,
        cfg_memoryCheckFrequency = 0\<rparr> 0 [])
       \<lparr>calc_cache := \<lparr>maxSize = 40000,
           cache = [(2, \<lparr>steps = 1, sequence = [2, 1], cacheHit = False\<rparr>)],
           usage = [(2, 1)]\<rparr>\<rparr>))
        (env ((new_CollatzCalculator \<lparr>cacheSize = 0, memoryThreshold = 0, cfg_batchSize = 0,
        cfg_memoryCheckFrequency = 0\<rparr> 0 [])
       \<lparr>calc_cache := \<lparr>maxSize = 40000,
           cache = [(2, \<lparr>steps = 1, sequence = [2, 1], cacheHit = False\<rparr>)],
           usage = [(2, 1)]\<rparr>\<rparr>))"
    by (simp add: run_defs)
  from C6_overflow_detected [OF reachable_after_2 it odd big fuel] ok
    reachable_after_2 it odd big fuel
  show ?thesis by blast
qed

section \<open>The reference value for 27\<close>

lemma uncached_loop_unfold:
  "calculateSequence_loop f False n cur s sq c =
     (if cur = 1 then Some (Inr \<lparr>steps = s, sequence = sq, cacheHit = False\<rparr>, c)
      else if f = 0 then None
      else (case nextNum cur of
              Inl e \<Rightarrow> Some (Inl e, clearOnPressure s c)
            | Inr nxt \<Rightarrow>
                if int (s + 1) > MAX_SAFE_INTEGER
                then Some (Inl StepLimitError, clearOnPressure s c)
                else calculateSequence_loop (f - 1) False n nxt (s + 1) (sq @ [nxt])
                       (clearOnPressure s c)))"
  by (cases f)
     (auto simp: loop_at_one finish_False loop_body_def lookup_False split: sum.splits)

lemma run_27:
  "\<exists>sq c'. calculateSequence_loop 111 False 27 27 0 [27] c
      = Some (Inr \<lparr>steps = 111, sequence = sq, cacheHit = False\<rparr>, c')"
  by (simp add: uncached_loop_unfold nextNum_def safeMultiply_def isSafeInteger_def
      MAX_SAFE_INTEGER_def)


text \<open>
  C9.  \<open>calculateSequence(27, false)\<close> returns a result whose \<open>steps\<close> is 111, given fuel for
  111 passes through the loop, in every calculator: the cache may hold anything and the
  monitor may report anything, so in particular with an empty cache and a monitor that
  reports OK throughout.
\<close>

theorem C9_steps_of_27:
  assumes "111 \<le> fuel"
  shows "\<exists>r c'. calculateSequence fuel 27 False c = Some (Inr r, c') \<and> steps r = 111"
proof -
  from run_27 [of c] obtain sq c' where
    "calculateSequence_loop 111 False 27 27 0 [27] c
      = Some (Inr \<lparr>steps = 111, sequence = sq, cacheHit = False\<rparr>, c')" by blast
  from fuel_mono [OF this, of "fuel - 111"] assms
  have "calculateSequence fuel 27 False c
      = Some (Inr \<lparr>steps = 111, sequence = sq, cacheHit = False\<rparr>, c')"
    by (simp add: calculateSequence_False)
  then show ?thesis by simp
qed

theorem C9_steps_of_27_witness:
  "(111::nat) \<le> 111
   \<and> (\<exists>r c'. calculateSequence 111 27 False
         (new_CollatzCalculator \<lparr>cacheSize = 0, memoryThreshold = 0, cfg_batchSize = 0,
        cfg_memoryCheckFrequency = 0\<rparr> 0 []) = Some (Inr r, c')
        \<and> steps r = 111)"
  using C9_steps_of_27 [of 111 "(new_CollatzCalculator \<lparr>cacheSize = 0, memoryThreshold = 0, cfg_batchSize = 0,
        cfg_memoryCheckFrequency = 0\<rparr> 0 [])"]
  by simp

section \<open>Failures inside processBatch\<close>

lemma processBatch_loop_stop:
  "\<not> i \<le> end' \<Longrightarrow> processBatch_loop f i end' uc acc c = Some (acc, None, c)"
  by (subst processBatch_loop.simps) simp

lemma processBatch_loop_fail:
  "i \<le> end' \<Longrightarrow> calculateSequence f i uc (snd (memoryPressure i c)) = Some (Inl e, c') \<Longrightarrow>
   processBatch_loop f i end' uc acc c = Some (acc, Some e, c')"
  by (subst processBatch_loop.simps) simp

lemma processBatch_loop_next:
  "i \<le> end' \<Longrightarrow> calculateSequence f i uc (snd (memoryPressure i c)) = Some (Inr r, c') \<Longrightarrow>
   processBatch_loop f i end' uc acc c
     = processBatch_loop f (roundDouble (i + 1)) end' uc (acc @ [entry i r]) c'"
  by (subst processBatch_loop.simps) simp

lemma processBatch_loop_run:
  assumes safe: "isSafeInteger end'"
  shows "- MAX_SAFE_INTEGER \<le> i \<Longrightarrow> length cs = length rs \<Longrightarrow>
     (\<forall>j < length rs. calculateSequence f (i + int j) uc
          (snd (memoryPressure (i + int j) ((c # cs) ! j))) = Some (Inr (rs ! j), cs ! j)) \<Longrightarrow>
     (rs \<noteq> [] \<longrightarrow> i + int (length rs) \<le> end' + 1) \<Longrightarrow>
     (i + int (length rs) \<le> end'
        \<and> calculateSequence f (i + int (length rs)) uc
            (snd (memoryPressure (i + int (length rs)) (last (c # cs)))) = Some (Inl e, c')
      \<longrightarrow> processBatch_loop f i end' uc acc c
          = Some (acc @ map (\<lambda>j. entry (i + int j) (rs ! j)) [0..<length rs], Some e, c'))
     \<and> (end' < i + int (length rs)
      \<longrightarrow> processBatch_loop f i end' uc acc c
          = Some (acc @ map (\<lambda>j. entry (i + int j) (rs ! j)) [0..<length rs], None,
                  last (c # cs)))"
proof (induction rs arbitrary: i c cs acc)
  case Nil
  then show ?case by (auto simp: processBatch_loop_fail processBatch_loop_stop)
next
  case (Cons r rs)
  from Cons.prems(2) obtain c1 cs' where cs: "cs = c1 # cs'" by (cases cs) auto
  from Cons.prems(4) have le: "i \<le> end'" by simp
  from Cons.prems(3) have first:
    "calculateSequence f i uc (snd (memoryPressure i c)) = Some (Inr r, c1)"
    by (auto simp: cs)
  from le safe Cons.prems(1) have "\<bar>i + 1\<bar> \<le> 9007199254740992"
    by (auto simp: isSafeInteger_def MAX_SAFE_INTEGER_def)
  then have rd: "roundDouble (i + 1) = i + 1" by (rule roundDouble_exact)
  have unfold: "processBatch_loop f i end' uc acc c
      = processBatch_loop f (i + 1) end' uc (acc @ [entry i r]) c1"
    using processBatch_loop_next [OF le first] by (simp add: rd)
  have low: "- MAX_SAFE_INTEGER \<le> i + 1" using Cons.prems(1) by simp
  have len: "length cs' = length rs" using Cons.prems(2) by (simp add: cs)
  have each: "\<forall>j < length rs. calculateSequence f (i + 1 + int j) uc
          (snd (memoryPressure (i + 1 + int j) ((c1 # cs') ! j))) = Some (Inr (rs ! j), cs' ! j)"
  proof (intro allI impI)
    fix j assume "j < length rs"
    then have "Suc j < length (r # rs)" by simp
    with Cons.prems(3) have "calculateSequence f (i + int (Suc j)) uc
          (snd (memoryPressure (i + int (Suc j)) ((c # cs) ! Suc j)))
          = Some (Inr ((r # rs) ! Suc j), cs ! Suc j)" by blast
    moreover have "i + int (Suc j) = i + 1 + int j" by simp
    moreover have "(c # cs) ! Suc j = (c1 # cs') ! j" "(r # rs) ! Suc j = rs ! j"
      "cs ! Suc j = cs' ! j" by (simp_all add: cs)
    ultimately show "calculateSequence f (i + 1 + int j) uc
          (snd (memoryPressure (i + 1 + int j) ((c1 # cs') ! j))) = Some (Inr (rs ! j), cs' ! j)"
      by (simp only:)
  qed
  have bound: "rs \<noteq> [] \<longrightarrow> i + 1 + int (length rs) \<le> end' + 1"
    using Cons.prems(4) by simp
  have idx: "i + int (length (r # rs)) = i + 1 + int (length rs)" by simp
  have lst: "last (c # cs) = last (c1 # cs')" by (simp add: cs)
  have ents: "acc @ map (\<lambda>j. entry (i + int j) ((r # rs) ! j)) [0..<length (r # rs)]
      = (acc @ [entry i r]) @ map (\<lambda>j. entry (i + 1 + int j) (rs ! j)) [0..<length rs]"
    by (simp add: map_upt_Suc add.assoc del: upt_Suc)
  from Cons.IH [OF low len each bound, of "acc @ [entry i r]"]
  show ?case unfolding unfold idx lst ents .
qed


lemma clearOnPressure_no_readings: "env c = [] \<Longrightarrow> clearOnPressure s c = c"
  by (cases c) (simp add: clearOnPressure_def memoryPressure_def)

lemma memoryPressure_no_readings: "env c = [] \<Longrightarrow> memoryPressure i c = (False, c)"
  by (cases c) (simp add: memoryPressure_def)

lemma env_fresh: "env (new_CollatzCalculator config now rs) = rs"
  by (simp add: new_CollatzCalculator_def)

lemma run_pow:
  "\<exists>sq. calculateSequence 52 4503599627370496 False
     (new_CollatzCalculator \<lparr>cacheSize = 0, memoryThreshold = 0, cfg_batchSize = 0,
        cfg_memoryCheckFrequency = 0\<rparr> 0 [])
   = Some (Inr \<lparr>steps = 52, sequence = sq, cacheHit = False\<rparr>,
       new_CollatzCalculator \<lparr>cacheSize = 0, memoryThreshold = 0, cfg_batchSize = 0,
        cfg_memoryCheckFrequency = 0\<rparr> 0 [])"
  by (simp add: calculateSequence_False uncached_loop_unfold nextNum_def safeMultiply_def
      isSafeInteger_def MAX_SAFE_INTEGER_def clearOnPressure_no_readings env_fresh)

lemma run_pow_next:
  "calculateSequence 52 4503599627370497 False
     (new_CollatzCalculator \<lparr>cacheSize = 0, memoryThreshold = 0, cfg_batchSize = 0,
        cfg_memoryCheckFrequency = 0\<rparr> 0 [])
   = Some (Inl OverflowError,
       new_CollatzCalculator \<lparr>cacheSize = 0, memoryThreshold = 0, cfg_batchSize = 0,
        cfg_memoryCheckFrequency = 0\<rparr> 0 [])"
  by (simp add: calculateSequence_False uncached_loop_unfold nextNum_def safeMultiply_def
      isSafeInteger_def MAX_SAFE_INTEGER_def clearOnPressure_no_readings env_fresh)



text \<open>
  C4 as stated fails: the \<open>try\<close> block encloses the whole \<open>for\<close> loop, so the first
  exception ends the loop.  For the range 0..1 the computation for 0 throws, and the batch
  returns no entry at all, although the computation for 1 succeeds.
\<close>

theorem C4_counterexample:
  "calculateSequence 1 0 False
     (new_CollatzCalculator \<lparr>cacheSize = 0, memoryThreshold = 0, cfg_batchSize = 0,
        cfg_memoryCheckFrequency = 0\<rparr> 0 [])
   = Some (Inl InvalidInputError,
       new_CollatzCalculator \<lparr>cacheSize = 0, memoryThreshold = 0, cfg_batchSize = 0,
        cfg_memoryCheckFrequency = 0\<rparr> 0 [])
   \<and> calculateSequence 1 1 False
     (new_CollatzCalculator \<lparr>cacheSize = 0, memoryThreshold = 0, cfg_batchSize = 0,
        cfg_memoryCheckFrequency = 0\<rparr> 0 [])
   = Some (Inr \<lparr>steps = 0, sequence = [1], cacheHit = False\<rparr>,
       new_CollatzCalculator \<lparr>cacheSize = 0, memoryThreshold = 0, cfg_batchSize = 0,
        cfg_memoryCheckFrequency = 0\<rparr> 0 [])
   \<and> processBatch 1 0 1 False
     (new_CollatzCalculator \<lparr>cacheSize = 0, memoryThreshold = 0, cfg_batchSize = 0,
        cfg_memoryCheckFrequency = 0\<rparr> 0 [])
   = Some ([], Some InvalidInputError,
       new_CollatzCalculator \<lparr>cacheSize = 0, memoryThreshold = 0, cfg_batchSize = 0,
        cfg_memoryCheckFrequency = 0\<rparr> 0 [])"
  by (simp add: processBatch_def processBatch_loop_fail memoryPressure_no_readings env_fresh
      calculateSequence_False uncached_loop_unfold)


text \<open>
  C4, amended.  For safe integers \<open>start\<close> and \<open>end\<close>, \<open>processBatch(start, end, useCache)\<close>
  stops at the first number \<open>i\<close> whose \<open>calculateSequence\<close> throws.  When the computations
  for \<open>start, \<dots>, i - 1\<close> succeed with the results \<open>rs\<close>, each run from the calculator that
  the one before left (\<open>c\<close>, then the states \<open>cs\<close>), and the computation for \<open>i \<le> end\<close>
  throws \<open>e\<close>, the batch returns: it logs \<open>e\<close> and its value is the entries of
  \<open>start, \<dots>, i - 1\<close> in order, with nothing for \<open>i\<close> or any later number, the calculator
  being left as the failed computation left it.  When the computations succeed for every
  number of the range, it logs nothing and returns one entry for every number.
\<close>

theorem C4_partial_results:
  assumes "isSafeInteger start" and "isSafeInteger end'"
    and "length cs = length rs"
    and "\<forall>j < length rs. calculateSequence fuel (start + int j) useCache
          (snd (memoryPressure (start + int j) ((c # cs) ! j))) = Some (Inr (rs ! j), cs ! j)"
    and "rs \<noteq> [] \<longrightarrow> start + int (length rs) \<le> end' + 1"
  shows "(start + int (length rs) \<le> end'
        \<and> calculateSequence fuel (start + int (length rs)) useCache
            (snd (memoryPressure (start + int (length rs)) (last (c # cs)))) = Some (Inl e, c')
      \<longrightarrow> processBatch fuel start end' useCache c
          = Some (map (\<lambda>j. entry (start + int j) (rs ! j)) [0..<length rs], Some e, c'))
     \<and> (end' < start + int (length rs)
      \<longrightarrow> processBatch fuel start end' useCache c
          = Some (map (\<lambda>j. entry (start + int j) (rs ! j)) [0..<length rs], None,
                  last (c # cs)))"
proof -
  from assms(1) have "- MAX_SAFE_INTEGER \<le> start" by (simp add: isSafeInteger_def)
  from processBatch_loop_run [OF assms(2) this assms(3,4,5), of e c' "[]"]
  show ?thesis by (simp add: processBatch_def)
qed

theorem C4_partial_results_witness:
  "\<exists>sq. isSafeInteger 4503599627370496 \<and> isSafeInteger 4503599627370498
     \<and> calculateSequence 52 4503599627370496 False
          (snd (memoryPressure 4503599627370496
             (new_CollatzCalculator \<lparr>cacheSize = 0, memoryThreshold = 0, cfg_batchSize = 0,
        cfg_memoryCheckFrequency = 0\<rparr> 0 [])))
        = Some (Inr \<lparr>steps = 52, sequence = sq, cacheHit = False\<rparr>,
             (new_CollatzCalculator \<lparr>cacheSize = 0, memoryThreshold = 0, cfg_batchSize = 0,
        cfg_memoryCheckFrequency = 0\<rparr> 0 []))
     \<and> (4503599627370497 :: int) \<le> 4503599627370498
     \<and> calculateSequence 52 4503599627370497 False
          (snd (memoryPressure 4503599627370497
             (new_CollatzCalculator \<lparr>cacheSize = 0, memoryThreshold = 0, cfg_batchSize = 0,
        cfg_memoryCheckFrequency = 0\<rparr> 0 [])))
        = Some (Inl OverflowError,
             (new_CollatzCalculator \<lparr>cacheSize = 0, memoryThreshold = 0, cfg_batchSize = 0,
        cfg_memoryCheckFrequency = 0\<rparr> 0 []))
     \<and> processBatch 52 4503599627370496 4503599627370498 False
          (new_CollatzCalculator \<lparr>cacheSize = 0, memoryThreshold = 0, cfg_batchSize = 0,
        cfg_memoryCheckFrequency = 0\<rparr> 0 [])
        = Some ([entry 4503599627370496 \<lparr>steps = 52, sequence = sq, cacheHit = False\<rparr>],
             Some OverflowError,
             (new_CollatzCalculator \<lparr>cacheSize = 0, memoryThreshold = 0, cfg_batchSize = 0,
        cfg_memoryCheckFrequency = 0\<rparr> 0 []))"
proof -
  let ?c = "(new_CollatzCalculator \<lparr>cacheSize = 0, memoryThreshold = 0, cfg_batchSize = 0,
        cfg_memoryCheckFrequency = 0\<rparr> 0 [])"
  from run_pow obtain sq where ok: "calculateSequence 52 4503599627370496 False ?c
     = Some (Inr \<lparr>steps = 52, sequence = sq, cacheHit = False\<rparr>, ?c)" by blast
  let ?r = "\<lparr>steps = 52, sequence = sq, cacheHit = False\<rparr>"
  have s1: "isSafeInteger 4503599627370496" and s2: "isSafeInteger 4503599627370498"
    by (simp_all add: isSafeInteger_def MAX_SAFE_INTEGER_def)
  have mp: "snd (memoryPressure i ?c) = ?c" for i
    by (simp add: memoryPressure_no_readings env_fresh)
  have len: "length [?c] = length [?r]" by simp
  have each: "\<forall>j < length [?r]. calculateSequence 52 (4503599627370496 + int j) False
          (snd (memoryPressure (4503599627370496 + int j) ((?c # [?c]) ! j)))
        = Some (Inr ([?r] ! j), [?c] ! j)"
    using ok by (simp add: mp)
  have bound: "[?r] \<noteq> [] \<longrightarrow> 4503599627370496 + int (length [?r]) \<le> 4503599627370498 + 1"
    by simp
  have fails: "calculateSequence 52 4503599627370497 False
      (snd (memoryPressure 4503599627370497 ?c)) = Some (Inl OverflowError, ?c)"
    using run_pow_next by (simp add: mp)
  from C4_partial_results [OF s1 s2 len each bound, of OverflowError ?c] fails
  have "processBatch 52 4503599627370496 4503599627370498 False ?c
        = Some ([entry 4503599627370496 ?r], Some OverflowError, ?c)"
    by (simp add: mp)
  with s1 s2 ok fails show ?thesis by (intro exI [of _ sq]) (simp add: mp)
qed

section \<open>The batches of generateRange\<close>

lemma generateRange_from_done: "e < i \<Longrightarrow> generateRange_from B i e = Some []"
  by (subst generateRange_from.simps) simp

lemma generateRange_from_tiles:
  assumes B: "0 < B" and hi: "e \<le> MAX_SAFE_INTEGER"
  shows "- MAX_SAFE_INTEGER \<le> i \<Longrightarrow> \<exists>bs. generateRange_from B i e = Some bs \<and> tiles B i e bs"
proof (induction "nat (e + 1 - i)" arbitrary: i rule: less_induct)
  case less
  show ?case
  proof (cases "i \<le> e")
    case False
    then show ?thesis by (simp add: generateRange_from_done)
  next
    case True
    let ?x = "i + int B"
    show ?thesis
    proof (cases "?x \<le> 9007199254740992")
      case small: True
      from small less.prems B have "\<bar>?x\<bar> \<le> 9007199254740992" "\<bar>?x - 1\<bar> \<le> 9007199254740992"
        by (auto simp: MAX_SAFE_INTEGER_def)
      then have rd: "roundDouble ?x = ?x" "roundDouble (?x - 1) = ?x - 1"
        by (auto intro: roundDouble_exact)
      from B True have "nat (e + 1 - ?x) < nat (e + 1 - i)" by simp
      moreover from less.prems B have "- MAX_SAFE_INTEGER \<le> ?x" by simp
      ultimately obtain later where
        "generateRange_from B ?x e = Some later" "tiles B ?x e later"
        using less.hyps by blast
      with True rd show ?thesis by (subst generateRange_from.simps) simp
    next
      case big: False
      then have y: "9007199254740992 \<le> roundDouble ?x" by (intro roundDouble_big) simp
      with hi have gt: "e < roundDouble ?x" by (simp add: MAX_SAFE_INTEGER_def)
      have "e \<le> roundDouble (roundDouble ?x - 1)"
      proof (cases "roundDouble ?x - 1 \<le> 9007199254740992")
        case True
        with y have "\<bar>roundDouble ?x - 1\<bar> \<le> 9007199254740992" by simp
        then have "roundDouble (roundDouble ?x - 1) = roundDouble ?x - 1"
          by (rule roundDouble_exact)
        with gt show ?thesis by simp
      next
        case False
        then have "9007199254740992 \<le> roundDouble (roundDouble ?x - 1)"
          by (intro roundDouble_big) simp
        with hi show ?thesis by (simp add: MAX_SAFE_INTEGER_def)
      qed
      then have m1: "min (roundDouble (roundDouble ?x - 1)) e = e" by simp
      from big hi have m2: "min (?x - 1) e = e" by (simp add: MAX_SAFE_INTEGER_def)
      from big hi have "e < ?x" by (simp add: MAX_SAFE_INTEGER_def)
      then have "tiles B ?x e []" by simp
      with True m1 m2 gt show ?thesis
        by (subst generateRange_from.simps) (simp add: generateRange_from_done)
    qed
  qed
qed

lemma tiles_bounds:
  "tiles B i e bs \<Longrightarrow> 0 < B \<Longrightarrow>
   \<forall>b \<in> set bs. i \<le> batch_start b \<and> batch_start b \<le> batch_end b \<and> batch_end b \<le> e"
proof (induction bs arbitrary: i)
  case Nil
  then show ?case by simp
next
  case (Cons b bs)
  from Cons.prems have "tiles B (i + int B) e bs" by simp
  from Cons.IH [OF this Cons.prems(2)] Cons.prems show ?case by fastforce
qed

lemma tiles_union:
  "tiles B i e bs \<Longrightarrow> 0 < B \<Longrightarrow> (\<Union>b \<in> set bs. {batch_start b..batch_end b}) = {i..e}"
proof (induction bs arbitrary: i)
  case Nil
  then show ?case by simp
next
  case (Cons b bs)
  from Cons.prems have t: "tiles B (i + int B) e bs" by simp
  from Cons.IH [OF t Cons.prems(2)]
  have rest: "(\<Union>b \<in> set bs. {batch_start b..batch_end b}) = {i + int B..e}" .
  from Cons.prems have b: "batch_start b = i" "batch_end b = min (i + int B - 1) e"
    and le: "i \<le> e" by simp_all
  from le Cons.prems(2) have "{i..min (i + int B - 1) e} \<union> {i + int B..e} = {i..e}"
    by auto
  with rest b show ?case by simp
qed

lemma tiles_contiguous:
  "tiles B i e bs \<Longrightarrow> Suc j < length bs \<Longrightarrow>
   batch_start (bs ! Suc j) = batch_end (bs ! j) + 1
   \<and> batch_end (bs ! j) - batch_start (bs ! j) + 1 = int B"
proof (induction bs arbitrary: i j)
  case Nil
  then show ?case by simp
next
  case (Cons b bs)
  from Cons.prems have t: "tiles B (i + int B) e bs" by simp
  show ?case
  proof (cases j)
    case 0
    with Cons.prems(2) obtain b' bs' where bs: "bs = b' # bs'" by (cases bs) auto
    with t have "i + int B \<le> e" "batch_start b' = i + int B" by simp_all
    with Cons.prems(1) 0 bs show ?thesis by simp
  next
    case (Suc j')
    with Cons.prems(2) have "Suc j' < length bs" by simp
    from Cons.IH [OF t this] Suc show ?thesis by simp
  qed
qed

lemma tiles_disjoint:
  "tiles B i e bs \<Longrightarrow> 0 < B \<Longrightarrow> sorted_wrt (\<lambda>a b. batch_end a < batch_start b) bs"
proof (induction bs arbitrary: i)
  case Nil
  then show ?case by simp
next
  case (Cons b bs)
  from Cons.prems have t: "tiles B (i + int B) e bs" by simp
  from tiles_bounds [OF t Cons.prems(2)] Cons.prems(1)
  have "\<forall>b' \<in> set bs. batch_end b < batch_start b'" by fastforce
  with Cons.IH [OF t Cons.prems(2)] show ?case by simp
qed

lemma tiles_ends:
  "tiles B i e bs \<Longrightarrow> bs \<noteq> [] \<Longrightarrow>
   batch_start (hd bs) = i \<and> batch_end (hd bs) = min (i + int B - 1) e
   \<and> batch_end (last bs) = e
   \<and> batch_end (last bs) - batch_start (last bs) + 1 \<le> int B"
proof (induction bs arbitrary: i)
  case Nil
  then show ?case by simp
next
  case (Cons b bs)
  from Cons.prems have t: "tiles B (i + int B) e bs" by simp
  show ?case
  proof (cases "bs = []")
    case True
    with Cons.prems show ?thesis by auto
  next
    case False
    from Cons.IH [OF t False] Cons.prems False show ?thesis by simp
  qed
qed



text \<open>
  C7 as stated fails: the loop variable and the batch end are doubles, and beyond \<open>2^53\<close>
  their sums round.  From 9007199254740990 to 9007199254740994 with batch size 3 the first
  batch ends at 9007199254740991, not at \<open>min(start + B - 1, end)\<close> = 9007199254740992, and
  it is a batch other than the last whose length is 2.
\<close>

theorem C7_counterexample:
  "(9007199254740990 :: int) \<le> 9007199254740994
   \<and> 1 \<le> batchSize (new_CollatzCalculator \<lparr>cacheSize = 0, memoryThreshold = 0, cfg_batchSize = 3,
        cfg_memoryCheckFrequency = 0\<rparr> 0 [])
   \<and> generateRange (new_CollatzCalculator \<lparr>cacheSize = 0, memoryThreshold = 0, cfg_batchSize = 3,
        cfg_memoryCheckFrequency = 0\<rparr> 0 []) 9007199254740990 9007199254740994
       = Some [\<lparr>batch_start = 9007199254740990, batch_end = 9007199254740991\<rparr>,
               \<lparr>batch_start = 9007199254740992, batch_end = 9007199254740994\<rparr>]
   \<and> min (9007199254740990 + int (batchSize (new_CollatzCalculator \<lparr>cacheSize = 0, memoryThreshold = 0, cfg_batchSize = 3,
        cfg_memoryCheckFrequency = 0\<rparr> 0 [])) - 1) 9007199254740994
       \<noteq> 9007199254740991"
  by (simp add: generateRange_def new_CollatzCalculator_def or_default_def
      generateRange_from.simps roundDouble_def ulp_small ulp_step Let_def)

text \<open>
  C7, amended.  For safe integers \<open>start \<le> end\<close> and a batch size \<open>B \<ge> 1\<close>,
  \<open>generateRange(start, end)\<close> finishes and yields a non-empty list of batches with
  \<open>start \<le> end\<close> each, every batch beginning right after the one before it, no two
  overlapping, their union the interval \<open>[start, end]\<close>, the first batch
  \<open>[start, min(start + B - 1, end)]\<close>, every batch but the last of length \<open>B\<close> and the last
  of length at most \<open>B\<close>.
\<close>

theorem C7_batches_tile_range:
  assumes "isSafeInteger start" and "isSafeInteger end'"
    and "start \<le> end'" and "1 \<le> batchSize c"
  shows "\<exists>bs. generateRange c start end' = Some bs \<and> bs \<noteq> []
     \<and> (\<forall>b \<in> set bs. batch_start b \<le> batch_end b)
     \<and> (\<forall>j. Suc j < length bs \<longrightarrow> batch_start (bs ! Suc j) = batch_end (bs ! j) + 1)
     \<and> (\<forall>j k. j < k \<longrightarrow> k < length bs \<longrightarrow> batch_end (bs ! j) < batch_start (bs ! k))
     \<and> (\<Union>b \<in> set bs. {batch_start b..batch_end b}) = {start..end'}
     \<and> batch_start (hd bs) = start
     \<and> batch_end (hd bs) = min (start + int (batchSize c) - 1) end'
     \<and> batch_end (last bs) - batch_start (last bs) + 1 \<le> int (batchSize c)
     \<and> (\<forall>j. Suc j < length bs \<longrightarrow>
           batch_end (bs ! j) - batch_start (bs ! j) + 1 = int (batchSize c))"
proof -
  from assms(4) have B: "0 < batchSize c" by simp
  from assms(1,2) have "- MAX_SAFE_INTEGER \<le> start" "end' \<le> MAX_SAFE_INTEGER"
    by (simp_all add: isSafeInteger_def)
  with B obtain bs where gen: "generateRange_from (batchSize c) start end' = Some bs"
    and t: "tiles (batchSize c) start end' bs"
    using generateRange_from_tiles by blast
  from t assms(3) have ne: "bs \<noteq> []" by (cases bs) auto
  have "\<forall>j k. j < k \<longrightarrow> k < length bs \<longrightarrow> batch_end (bs ! j) < batch_start (bs ! k)"
    using tiles_disjoint [OF t B] by (simp add: sorted_wrt_iff_nth_less)
  with gen ne tiles_bounds [OF t B] tiles_union [OF t B] tiles_ends [OF t ne]
    tiles_contiguous [OF t]
  show ?thesis by (simp add: generateRange_def)
qed

lemma batchSize_3:
  "batchSize (new_CollatzCalculator \<lparr>cacheSize = 0, memoryThreshold = 0, cfg_batchSize = 3,
        cfg_memoryCheckFrequency = 0\<rparr> 0 []) = 3"
  by (simp add: new_CollatzCalculator_def or_default_def)

theorem C7_batches_tile_range_witness:
  "isSafeInteger 1 \<and> isSafeInteger 10 \<and> (1::int) \<le> 10
   \<and> 1 \<le> batchSize (new_CollatzCalculator \<lparr>cacheSize = 0, memoryThreshold = 0, cfg_batchSize = 3,
        cfg_memoryCheckFrequency = 0\<rparr> 0 [])
   \<and> generateRange (new_CollatzCalculator \<lparr>cacheSize = 0, memoryThreshold = 0, cfg_batchSize = 3,
        cfg_memoryCheckFrequency = 0\<rparr> 0 []) 1 10
       = Some [\<lparr>batch_start = 1, batch_end = 3\<rparr>, \<lparr>batch_start = 4, batch_end = 6\<rparr>,
               \<lparr>batch_start = 7, batch_end = 9\<rparr>, \<lparr>batch_start = 10, batch_end = 10\<rparr>]
   \<and> (\<exists>bs. generateRange (new_CollatzCalculator \<lparr>cacheSize = 0, memoryThreshold = 0, cfg_batchSize = 3,
        cfg_memoryCheckFrequency = 0\<rparr> 0 []) 1 10 = Some bs \<and> bs \<noteq> []
     \<and> (\<forall>b \<in> set bs. batch_start b \<le> batch_end b)
     \<and> (\<forall>j. Suc j < length bs \<longrightarrow> batch_start (bs ! Suc j) = batch_end (bs ! j) + 1)
     \<and> (\<forall>j k. j < k \<longrightarrow> k < length bs \<longrightarrow> batch_end (bs ! j) < batch_start (bs ! k))
     \<and> (\<Union>b \<in> set bs. {batch_start b..batch_end b}) = {1..10}
     \<and> batch_start (hd bs) = 1
     \<and> batch_end (hd bs) = min (1 + int (batchSize (new_CollatzCalculator \<lparr>cacheSize = 0, memoryThreshold = 0, cfg_batchSize = 3,
        cfg_memoryCheckFrequency = 0\<rparr> 0 [])) - 1) 10
     \<and> batch_end (last bs) - batch_start (last bs) + 1
         \<le> int (batchSize (new_CollatzCalculator \<lparr>cacheSize = 0, memoryThreshold = 0, cfg_batchSize = 3,
        cfg_memoryCheckFrequency = 0\<rparr> 0 []))
     \<and> (\<forall>j. Suc j < length bs \<longrightarrow>
           batch_end (bs ! j) - batch_start (bs ! j) + 1
           = int (batchSize (new_CollatzCalculator \<lparr>cacheSize = 0, memoryThreshold = 0, cfg_batchSize = 3,
        cfg_memoryCheckFrequency = 0\<rparr> 0 []))))"
proof -
  have s1: "isSafeInteger 1" and s2: "isSafeInteger 10"
    by (simp_all add: isSafeInteger_def MAX_SAFE_INTEGER_def)
  have le: "(1::int) \<le> 10" by simp
  have B: "1 \<le> batchSize (new_CollatzCalculator \<lparr>cacheSize = 0, memoryThreshold = 0, cfg_batchSize = 3,
        cfg_memoryCheckFrequency = 0\<rparr> 0 [])"
    by (simp add: batchSize_3)
  have run: "generateRange (new_CollatzCalculator \<lparr>cacheSize = 0, memoryThreshold = 0, cfg_batchSize = 3,
        cfg_memoryCheckFrequency = 0\<rparr> 0 []) 1 10
       = Some [\<lparr>batch_start = 1, batch_end = 3\<rparr>, \<lparr>batch_start = 4, batch_end = 6\<rparr>,
               \<lparr>batch_start = 7, batch_end = 9\<rparr>, \<lparr>batch_start = 10, batch_end = 10\<rparr>]"
    by (simp add: generateRange_def batchSize_3 generateRange_from.simps roundDouble_exact)
  from C7_batches_tile_range [OF s1 s2 le B] s1 s2 le B run show ?thesis
    by (intro conjI) assumption+
qed

section \<open>The cache-hit count of the report\<close>

text \<open>
  Two cached runs of the batch 1..4, each from an empty cache: with the monitor silent, the
  numbers 3 and 4 hit the cache; with memory pressure reported at the third poll, the cache
  is cleared before 4 is looked up, and only 3 hits.
\<close>

lemma batch_ok:
  "processBatch 7 1 4 True
     (new_CollatzCalculator \<lparr>cacheSize = 0, memoryThreshold = 0, cfg_batchSize = 0,
        cfg_memoryCheckFrequency = 0\<rparr> 0 [])
   = Some ([\<lparr>steps = 0, sequence = [1], cacheHit = False, number = 1\<rparr>,
            \<lparr>steps = 1, sequence = [2, 1], cacheHit = False, number = 2\<rparr>,
            \<lparr>steps = 7, sequence = [3, 10, 5, 16, 8, 4, 2, 1], cacheHit = True, number = 3\<rparr>,
            \<lparr>steps = 2, sequence = [4, 2, 1], cacheHit = True, number = 4\<rparr>],
           None,
           (new_CollatzCalculator \<lparr>cacheSize = 0, memoryThreshold = 0, cfg_batchSize = 0,
              cfg_memoryCheckFrequency = 0\<rparr> 0 [])
           \<lparr>calc_cache := \<lparr>maxSize = 40000,
               cache = [(1, \<lparr>steps = 0, sequence = [1], cacheHit = False\<rparr>),
                        (2, \<lparr>steps = 1, sequence = [2, 1], cacheHit = False\<rparr>)],
               usage = [(1, 1), (2, 3)]\<rparr>\<rparr>)"
  by (simp add: processBatch_def processBatch_loop.simps roundDouble_exact run_defs loop_unfold
      entry_def)

lemma batch_pressure:
  "processBatch 7 1 4 True
     (new_CollatzCalculator \<lparr>cacheSize = 0, memoryThreshold = 0, cfg_batchSize = 0,
        cfg_memoryCheckFrequency = 0\<rparr> 0 [(0, 0), (0, 0), (2000, 1000000000)])
   = Some ([\<lparr>steps = 0, sequence = [1], cacheHit = False, number = 1\<rparr>,
            \<lparr>steps = 1, sequence = [2, 1], cacheHit = False, number = 2\<rparr>,
            \<lparr>steps = 7, sequence = [3, 10, 5, 16, 8, 4, 2, 1], cacheHit = True, number = 3\<rparr>,
            \<lparr>steps = 2, sequence = [4, 2, 1], cacheHit = False, number = 4\<rparr>],
           None,
           (new_CollatzCalculator \<lparr>cacheSize = 0, memoryThreshold = 0, cfg_batchSize = 0,
              cfg_memoryCheckFrequency = 0\<rparr> 2000 [])
           \<lparr>calc_cache := \<lparr>maxSize = 40000,
               cache = [(4, \<lparr>steps = 2, sequence = [4, 2, 1], cacheHit = False\<rparr>)],
               usage = [(4, 1)]\<rparr>\<rparr>)"
  by (simp add: processBatch_def processBatch_loop.simps roundDouble_exact run_defs loop_unfold
      entry_def)

text \<open>
  What the code folds into the totals: the hits among \<open>batchMetrics.results\<close>, and these
  are the results of the first sample.
\<close>

lemma recordResult_hits:
  "total_cacheHits (foldl recordResult m rs) = total_cacheHits m + length (filter cacheHit rs)"
  by (induction rs arbitrary: m) (simp_all add: recordResult_def Let_def)

lemma updateMetrics_hits:
  "total_cacheHits (updateMetrics metrics batchMetrics)
   = total_cacheHits metrics + length (filter cacheHit (results batchMetrics))"
  by (simp add: updateMetrics_def Let_def recordResult_hits)

lemma calculateAverageMetrics_results:
  "calculateAverageMetrics (first # others) = Inr bm \<Longrightarrow> results bm = results first"
  by (auto simp: calculateAverageMetrics_def)

text \<open>
  C8 fails on the code.  \<open>calculateAverageMetrics\<close> computes the mean of the per-sample hit
  counts into \<open>cacheHits\<close>, but \<open>updateMetrics\<close> never reads that field: it counts the hits
  in \<open>batchMetrics.results\<close>, which is the \<open>results\<close> array of the first sample alone.  For
  the two samples above the mean is \<open>3/2\<close>, the count folded into the totals is 2, and the
  reported rate over the range 1..4 is 50 instead of 37.5.
\<close>

theorem C8_first_sample_counted:
  "\<exists>bm. calculateAverageMetrics
        [\<lparr>executionTime = 1, memoryUsed = 1, peakMemoryUsed = 1,
         results = [\<lparr>steps = 0, sequence = [1], cacheHit = False, number = 1\<rparr>,
            \<lparr>steps = 1, sequence = [2, 1], cacheHit = False, number = 2\<rparr>,
            \<lparr>steps = 7, sequence = [3, 10, 5, 16, 8, 4, 2, 1], cacheHit = True, number = 3\<rparr>,
            \<lparr>steps = 2, sequence = [4, 2, 1], cacheHit = True, number = 4\<rparr>]\<rparr>,
         \<lparr>executionTime = 1, memoryUsed = 1, peakMemoryUsed = 1,
         results = [\<lparr>steps = 0, sequence = [1], cacheHit = False, number = 1\<rparr>,
            \<lparr>steps = 1, sequence = [2, 1], cacheHit = False, number = 2\<rparr>,
            \<lparr>steps = 7, sequence = [3, 10, 5, 16, 8, 4, 2, 1], cacheHit = True, number = 3\<rparr>,
            \<lparr>steps = 2, sequence = [4, 2, 1], cacheHit = False, number = 4\<rparr>]\<rparr>] = Inr bm
     \<and> cacheHits bm = 3 / 2
     \<and> total_cacheHits (updateMetrics \<lparr>totalTime = 0, memoryProfile = [], total_cacheHits = 0, maxSteps = 0,
          peakMemory = 0, averageMemory = 0\<rparr> bm) = 2
     \<and> cacheHitRate (updateMetrics \<lparr>totalTime = 0, memoryProfile = [], total_cacheHits = 0, maxSteps = 0,
          peakMemory = 0, averageMemory = 0\<rparr> bm) 1 4 = Some 50"
  by (simp add: calculateAverageMetrics_def updateMetrics_def recordResult_def
      cacheHitRate_def roundDouble_exact Let_def)

end
